theory Spec2Isabelle
  imports Complex_Main
begin

section \<open>C values: faults, doubles, checked arrays\<close>

text \<open>
  The C code indexes raw arrays and divides machine integers. Both can leave the
  defined behaviour of C; the embedding makes each such place a branch that returns a
  fault: an array index out of range, a division by zero, a message whose length is not
  the one the receiver expects, an access through an address that is not allocated.
\<close>

datatype fault = OutOfBounds | DivideByZero | CountMismatch | BadPointer

text \<open>
  A C \<^verbatim>\<open>double\<close> as far as \<^verbatim>\<open><\<close> and \<^verbatim>\<open>==\<close> can see it: a NaN, an infinity, or
  a finite number (both zeros are the number 0). \<open>dlt\<close> is the operator \<^verbatim>\<open><\<close> and
  \<open>deq\<close> the operator \<^verbatim>\<open>==\<close>; every comparison with a NaN is false.
\<close>

datatype cdouble = NaN | NegInf | Fin real | PosInf

fun dlt :: "cdouble \<Rightarrow> cdouble \<Rightarrow> bool" where
  "dlt NaN y = False"
| "dlt x NaN = False"
| "dlt NegInf NegInf = False"
| "dlt NegInf y = True"
| "dlt (Fin a) (Fin b) = (a < b)"
| "dlt (Fin a) PosInf = True"
| "dlt (Fin a) NegInf = False"
| "dlt PosInf y = False"

fun deq :: "cdouble \<Rightarrow> cdouble \<Rightarrow> bool" where
  "deq NaN y = False"
| "deq x NaN = False"
| "deq NegInf NegInf = True"
| "deq (Fin a) (Fin b) = (a = b)"
| "deq PosInf PosInf = True"
| "deq x y = False"

definition array_read :: "'a list \<Rightarrow> int \<Rightarrow> fault + 'a" where
  "array_read xs i =
     (if 0 \<le> i \<and> i < int (length xs) then Inr (xs ! nat i) else Inl OutOfBounds)"

definition array_write :: "'a list \<Rightarrow> int \<Rightarrow> 'a \<Rightarrow> fault + 'a list" where
  "array_write xs i v =
     (if 0 \<le> i \<and> i < int (length xs) then Inr (xs[nat i := v]) else Inl OutOfBounds)"

section \<open>The per-user optimizer: \<^verbatim>\<open>lslim_learn_pu\<close>\<close>

text \<open>
  \<^verbatim>\<open>lslim_training_error(ctrl, model, train, u, cluster_id)\<close> is declared outside this
  file. The control structure and the two matrices are the same in every call of a
  round, so the embedding takes it as a parameter \<open>training_error u cluster_id\<close>.

  First loop: \<^verbatim>\<open>error[cluster_id] = lslim_training_error(...)\<close> for every cluster.
\<close>

function fill_error :: "(int \<Rightarrow> cdouble) \<Rightarrow> int \<Rightarrow> int \<Rightarrow> cdouble list \<Rightarrow> fault + cdouble list" where
  "fill_error terr num_clusters cluster_id error =
     (if cluster_id < num_clusters then
        (case array_write error cluster_id (terr cluster_id) of
           Inl e \<Rightarrow> Inl e
         | Inr error' \<Rightarrow> fill_error terr num_clusters (cluster_id + 1) error')
      else Inr error)"
  by pat_completeness auto
termination
  by (relation "measure (\<lambda>(terr, num_clusters, cluster_id, error). nat (num_clusters - cluster_id))") auto

text \<open>
  Second loop: the scan for the smallest error. The pair is
  \<open>(new_assignment, min_error)\<close>; it is replaced only when
  \<^verbatim>\<open>error[cluster_id] < min_error\<close>.
\<close>

function scan_min :: "cdouble list \<Rightarrow> int \<Rightarrow> int \<Rightarrow> int \<times> cdouble \<Rightarrow> fault + (int \<times> cdouble)" where
  "scan_min error num_clusters cluster_id (new_assignment, min_error) =
     (if cluster_id < num_clusters then
        (case array_read error cluster_id of
           Inl e \<Rightarrow> Inl e
         | Inr x \<Rightarrow>
             if dlt x min_error
             then scan_min error num_clusters (cluster_id + 1) (cluster_id, x)
             else scan_min error num_clusters (cluster_id + 1) (new_assignment, min_error))
      else Inr (new_assignment, min_error))"
  by pat_completeness auto
termination
  by (relation "measure (\<lambda>(error, num_clusters, cluster_id, s). nat (num_clusters - cluster_id))") auto

text \<open>
  Third loop, run only when the assignment did not move: \<^verbatim>\<open>*indiff = 1\<close> for every
  other cluster whose error \<^verbatim>\<open>==\<close> \<open>min_error\<close>. The \<^verbatim>\<open>&&\<close> reads the array only when
  \<^verbatim>\<open>cluster_id != participation\<close>.
\<close>

function scan_tie :: "cdouble list \<Rightarrow> int \<Rightarrow> int \<Rightarrow> cdouble \<Rightarrow> int \<Rightarrow> int \<Rightarrow> fault + int" where
  "scan_tie error num_clusters participation min_error cluster_id indiff =
     (if cluster_id < num_clusters then
        (if cluster_id \<noteq> participation then
           (case array_read error cluster_id of
              Inl e \<Rightarrow> Inl e
            | Inr x \<Rightarrow>
                scan_tie error num_clusters participation min_error (cluster_id + 1)
                  (if deq x min_error then 1 else indiff))
         else scan_tie error num_clusters participation min_error (cluster_id + 1) indiff)
      else Inr indiff)"
  by pat_completeness auto
termination
  by (relation "measure (\<lambda>(error, num_clusters, participation, min_error, cluster_id, indiff).
        nat (num_clusters - cluster_id))") auto

text \<open>
  The function itself. \<^verbatim>\<open>gk_dsmalloc(num_clusters, 0, ...)\<close> gives an array of
  \<open>num_clusters\<close> zeros. The result is the pair of the returned assignment and the
  value left in \<^verbatim>\<open>*indiff\<close>.
\<close>

definition lslim_learn_pu :: "int \<Rightarrow> (int \<Rightarrow> int \<Rightarrow> cdouble) \<Rightarrow> int \<Rightarrow> int \<Rightarrow> fault + (int \<times> int)" where
  "lslim_learn_pu num_clusters training_error u participation =
     (case fill_error (training_error u) num_clusters 0 (replicate (nat num_clusters) (Fin 0)) of
        Inl e \<Rightarrow> Inl e
      | Inr error \<Rightarrow>
          (case array_read error participation of
             Inl e \<Rightarrow> Inl e
           | Inr min_error0 \<Rightarrow>
               (case scan_min error num_clusters 0 (participation, min_error0) of
                  Inl e \<Rightarrow> Inl e
                | Inr (new_assignment, min_error) \<Rightarrow>
                    if new_assignment = participation then
                      (case scan_tie error num_clusters participation min_error 0 0 of
                         Inl e \<Rightarrow> Inl e
                       | Inr indiff \<Rightarrow> Inr (new_assignment, indiff))
                    else Inr (new_assignment, 0))))"

declare fill_error.simps [simp del] scan_min.simps [simp del] scan_tie.simps [simp del]

text \<open>
  The state of the second loop before cluster \<open>i\<close> is looked at, for a scan that
  started from the incumbent \<open>c\<close>: \<open>min_error\<close> is the error of \<open>new_assignment\<close>,
  no cluster before \<open>i\<close> is below it, and an assignment that moved is below the
  incumbent and is the first cluster with its error.
\<close>

definition scan_inv :: "cdouble list \<Rightarrow> int \<Rightarrow> int \<Rightarrow> int \<Rightarrow> int \<times> cdouble \<Rightarrow> bool" where
  "scan_inv error n c i s =
     (case s of (a, m) \<Rightarrow>
        0 \<le> a \<and> a < n \<and> m = error ! nat a \<and>
        (\<forall>j. 0 \<le> j \<and> j < i \<longrightarrow> \<not> dlt (error ! nat j) m) \<and>
        (a \<noteq> c \<longrightarrow> a < i \<and> dlt m (error ! nat c) \<and> (\<forall>j. 0 \<le> j \<and> j < a \<longrightarrow> \<not> deq (error ! nat j) m)))"

text \<open>The errors of the scenario of section 8 of the specification: four users, two clusters.\<close>

definition scenario_error :: "int \<Rightarrow> int \<Rightarrow> cdouble" where
  "scenario_error u cluster_id =
     (if u = 0 then (if cluster_id = 0 then Fin 1 else Fin 2)
      else if u = 1 then (if cluster_id = 0 then Fin 2 else Fin 1)
      else if u = 2 then Fin 1
      else Fin 3)"

section \<open>The work partitioner: the top of \<^verbatim>\<open>lslim_learn_pu_all\<close>\<close>

text \<open>
  C's \<^verbatim>\<open>/\<close> truncates towards zero and \<^verbatim>\<open>%\<close> is the remainder of that division;
  \<^verbatim>\<open>gk_min\<close> is the macro \<^verbatim>\<open>((a) >= (b) ? (b) : (a))\<close>. The fields \<^verbatim>\<open>ctrl->id\<close> and
  \<^verbatim>\<open>ctrl->size\<close> are written \<open>id_ctrl\<close> and \<open>size_ctrl\<close>; \<open>datasize\<close> is
  \<^verbatim>\<open>train->nrows\<close>. Integers are unbounded here: for \<open>0 \<le> id_ctrl < num_procs\<close> and
  \<open>0 \<le> datasize\<close> every intermediate value is nonnegative and at most \<open>datasize\<close>,
  the remainder being below \<open>num_procs\<close> (lemma \<open>block_range_no_overflow\<close>), so C
  \<^verbatim>\<open>int\<close>s that hold \<open>datasize\<close> and \<open>num_procs\<close> hold them all.

  \<open>block_range\<close> is lines 44 to 49 and gives \<open>(step, startu, endu)\<close>; a division by
  zero is a fault. \<open>clamp_last\<close> is the \<^verbatim>\<open>if\<close> of lines 51 to 54.
\<close>

definition c_div :: "int \<Rightarrow> int \<Rightarrow> int" where
  "c_div a b = sgn a * sgn b * (\<bar>a\<bar> div \<bar>b\<bar>)"

definition c_mod :: "int \<Rightarrow> int \<Rightarrow> int" where
  "c_mod a b = a - c_div a b * b"

definition gk_min :: "int \<Rightarrow> int \<Rightarrow> int" where
  "gk_min a b = (if a \<ge> b then b else a)"

definition block_range :: "int \<Rightarrow> int \<Rightarrow> int \<Rightarrow> fault + (int \<times> int \<times> int)" where
  "block_range datasize num_procs id_ctrl =
     (if num_procs = 0 then Inl DivideByZero
      else
        let step = c_div datasize num_procs + (if id_ctrl < c_mod datasize num_procs then 1 else 0);
            startu = c_div datasize num_procs * id_ctrl + gk_min id_ctrl (c_mod datasize num_procs);
            endu = startu + step
        in Inr (step, startu, endu))"

definition clamp_last :: "int \<Rightarrow> int \<Rightarrow> int \<Rightarrow> int \<times> int \<times> int \<Rightarrow> int \<times> int \<times> int" where
  "clamp_last datasize num_procs id_ctrl r =
     (case r of (step, startu, endu) \<Rightarrow>
        if endu < datasize \<and> id_ctrl = num_procs - 1
        then (datasize - startu, startu, datasize)
        else (step, startu, endu))"

definition worker_range :: "int \<Rightarrow> int \<Rightarrow> int \<Rightarrow> fault + (int \<times> int \<times> int)" where
  "worker_range datasize num_procs id_ctrl =
     (case block_range datasize num_procs id_ctrl of
        Inl e \<Rightarrow> Inl e
      | Inr r \<Rightarrow> Inr (clamp_last datasize num_procs id_ctrl r))"

text \<open>
  The partition as the specification words it: \<open>base = numUsers / numWorkers\<close>,
  \<open>remainder = numUsers % numWorkers\<close>, \<open>start(w) = base*w + min(w, remainder)\<close>, and
  \<open>base + 1\<close> users for the first \<open>remainder\<close> workers, \<open>base\<close> for the rest.
\<close>

definition bstart :: "int \<Rightarrow> int \<Rightarrow> int \<Rightarrow> int" where
  "bstart datasize num_procs w = (datasize div num_procs) * w + min w (datasize mod num_procs)"

definition bsize :: "int \<Rightarrow> int \<Rightarrow> int \<Rightarrow> int" where
  "bsize datasize num_procs w =
     datasize div num_procs + (if w < datasize mod num_procs then 1 else 0)"

section \<open>One round on all workers: \<^verbatim>\<open>lslim_learn_pu_all\<close>\<close>

text \<open>
  \<^verbatim>\<open>gk_imalloc(n, ...)\<close> returns \<open>n\<close> uninitialised ints: whatever the memory held,
  given by \<open>junk\<close>. \<^verbatim>\<open>gk_ismalloc(n, ival, ...)\<close> returns \<open>n\<close> copies of \<open>ival\<close>.
\<close>

definition gk_imalloc :: "(nat \<Rightarrow> int) \<Rightarrow> int \<Rightarrow> int list" where
  "gk_imalloc junk n = map junk [0..<nat n]"

definition gk_ismalloc :: "int \<Rightarrow> int \<Rightarrow> int list" where
  "gk_ismalloc n ival = replicate (nat n) ival"

text \<open>
  Line 66: \<^verbatim>\<open>lslim_learn_pu(ctrl, train, u, model, participation[u], &indiff)\<close>, the pair of
  the returned assignment and the value left in \<open>indiff\<close>.
\<close>

definition learn_user :: "int \<Rightarrow> (int \<Rightarrow> int \<Rightarrow> cdouble) \<Rightarrow> int list \<Rightarrow> int \<Rightarrow> fault + (int \<times> int)" where
  "learn_user num_clusters training_error participation u =
     (case array_read participation u of
        Inl e \<Rightarrow> Inl e
      | Inr p \<Rightarrow> lslim_learn_pu num_clusters training_error u p)"

text \<open>
  Lines 65 to 69: the loop of one worker over its users, writing into
  \<open>partial_participation\<close> and \<open>partial_indiff\<close> at \<open>u - startu\<close>.
\<close>

function learn_loop :: "int \<Rightarrow> (int \<Rightarrow> int \<Rightarrow> cdouble) \<Rightarrow> int list \<Rightarrow> int \<Rightarrow> int \<Rightarrow> int \<Rightarrow>
    int list \<times> int list \<Rightarrow> fault + (int list \<times> int list)" where
  "learn_loop num_clusters training_error participation startu endu u
       (partial_participation, partial_indiff) =
     (if u < endu then
        (case learn_user num_clusters training_error participation u of
           Inl e \<Rightarrow> Inl e
         | Inr (assignment, indiff) \<Rightarrow>
             (case array_write partial_participation (u - startu) assignment of
                Inl e \<Rightarrow> Inl e
              | Inr partial_participation' \<Rightarrow>
                  (case array_write partial_indiff (u - startu) indiff of
                     Inl e \<Rightarrow> Inl e
                   | Inr partial_indiff' \<Rightarrow>
                       learn_loop num_clusters training_error participation startu endu (u + 1)
                         (partial_participation', partial_indiff'))))
      else Inr (partial_participation, partial_indiff))"
  by pat_completeness auto
termination
  by (relation "measure (\<lambda>(num_clusters, training_error, participation, startu, endu, u, s).
        nat (endu - u))") auto

declare learn_loop.simps [simp del]

text \<open>
  Lines 44 to 69 on the worker \<open>id_ctrl\<close>: its range, its two buffers of \<open>step\<close> ints and
  its loop. Lines 56 to 58 widen \<^verbatim>\<open>model->ncols\<close> and build the column index; they act
  on the model only, which \<open>training_error\<close> stands for.
\<close>

definition local_pass :: "int \<Rightarrow> int \<Rightarrow> (int \<Rightarrow> int \<Rightarrow> cdouble) \<Rightarrow> int \<Rightarrow> int list \<Rightarrow> (nat \<Rightarrow> int) \<Rightarrow> int \<Rightarrow>
    fault + (int \<times> int list \<times> int list)" where
  "local_pass num_procs num_clusters training_error datasize participation junk id_ctrl =
     (case worker_range datasize num_procs id_ctrl of
        Inl e \<Rightarrow> Inl e
      | Inr (step, startu, endu) \<Rightarrow>
          (case learn_loop num_clusters training_error participation startu endu startu
                  (gk_imalloc junk step, gk_imalloc junk step) of
             Inl e \<Rightarrow> Inl e
           | Inr (partial_participation, partial_indiff) \<Rightarrow>
               Inr (step, partial_participation, partial_indiff)))"

text \<open>
  The workers run the same program; a fault of any of them ends the round.
\<close>

fun collect :: "(fault + 'a) list \<Rightarrow> fault + 'a list" where
  "collect [] = Inr []"
| "collect (x # xs) =
     (case x of
        Inl e \<Rightarrow> Inl e
      | Inr v \<Rightarrow> (case collect xs of Inl e \<Rightarrow> Inl e | Inr vs \<Rightarrow> Inr (v # vs)))"

text \<open>
  The collectives, as the MPI standard defines them. A message is the first
  \<open>sendcount\<close> elements of the send buffer; the root stores the message of rank \<open>r\<close>
  at \<open>displs[r]\<close> of its receive buffer and expects \<open>recvcounts[r]\<close> elements.
  \<^verbatim>\<open>MPI_Gather\<close> of one int per rank stores the value of rank \<open>r\<close> at index \<open>r\<close>.
  \<^verbatim>\<open>MPI_Bcast\<close> overwrites the first \<open>count\<close> elements of every buffer with those of the
  root's buffer.
\<close>

definition send_block :: "int list \<Rightarrow> int \<Rightarrow> fault + int list" where
  "send_block sendbuf sendcount =
     (if 0 \<le> sendcount \<and> sendcount \<le> int (length sendbuf)
      then Inr (take (nat sendcount) sendbuf) else Inl OutOfBounds)"

definition put_block :: "int list \<Rightarrow> int \<Rightarrow> int list \<Rightarrow> fault + int list" where
  "put_block recvbuf displ msg =
     (if 0 \<le> displ \<and> displ + int (length msg) \<le> int (length recvbuf)
      then Inr (take (nat displ) recvbuf @ msg @ drop (nat displ + length msg) recvbuf)
      else Inl OutOfBounds)"

definition mpi_gather :: "int list \<Rightarrow> int list \<Rightarrow> fault + int list" where
  "mpi_gather values recvbuf = put_block recvbuf 0 values"

fun mpi_gatherv :: "(int list \<times> int) list \<Rightarrow> int list \<Rightarrow> int list \<Rightarrow> int \<Rightarrow> int list \<Rightarrow> fault + int list" where
  "mpi_gatherv [] recvcounts displs r recvbuf = Inr recvbuf"
| "mpi_gatherv ((sendbuf, sendcount) # sends) recvcounts displs r recvbuf =
     (case send_block sendbuf sendcount of
        Inl e \<Rightarrow> Inl e
      | Inr msg \<Rightarrow>
          (case array_read recvcounts r of
             Inl e \<Rightarrow> Inl e
           | Inr recvcount \<Rightarrow>
               if recvcount \<noteq> sendcount then Inl CountMismatch
               else
                 (case array_read displs r of
                    Inl e \<Rightarrow> Inl e
                  | Inr displ \<Rightarrow>
                      (case put_block recvbuf displ msg of
                         Inl e \<Rightarrow> Inl e
                       | Inr recvbuf' \<Rightarrow> mpi_gatherv sends recvcounts displs (r + 1) recvbuf'))))"

definition mpi_bcast :: "int list \<Rightarrow> int \<Rightarrow> int list \<Rightarrow> fault + int list" where
  "mpi_bcast root_buffer count buffer =
     (case send_block root_buffer count of
        Inl e \<Rightarrow> Inl e
      | Inr msg \<Rightarrow> put_block buffer 0 msg)"

text \<open>
  Lines 82 to 88 on the root: \<^verbatim>\<open>displays[0] = 0\<close>, then
  \<^verbatim>\<open>displays[i + 1] = displays[i] + sizes[i]\<close> for every \<open>i\<close> but the last.
\<close>

function displays_loop :: "int \<Rightarrow> int list \<Rightarrow> int \<Rightarrow> int list \<Rightarrow> fault + int list" where
  "displays_loop num_procs sizes i displays =
     (if i < num_procs then
        (if i \<noteq> num_procs - 1 then
           (case array_read displays i of
              Inl e \<Rightarrow> Inl e
            | Inr d \<Rightarrow>
                (case array_read sizes i of
                   Inl e \<Rightarrow> Inl e
                 | Inr s \<Rightarrow>
                     (case array_write displays (i + 1) (d + s) of
                        Inl e \<Rightarrow> Inl e
                      | Inr displays' \<Rightarrow> displays_loop num_procs sizes (i + 1) displays')))
         else displays_loop num_procs sizes (i + 1) displays)
      else Inr displays)"
  by pat_completeness auto
termination
  by (relation "measure (\<lambda>(num_procs, sizes, i, displays). nat (num_procs - i))") auto

declare displays_loop.simps [simp del]

definition compute_displays :: "int \<Rightarrow> int list \<Rightarrow> int list \<Rightarrow> fault + int list" where
  "compute_displays num_procs sizes displays =
     (case array_write displays 0 0 of
        Inl e \<Rightarrow> Inl e
      | Inr displays' \<Rightarrow> displays_loop num_procs sizes 0 displays')"

text \<open>
  Lines 75 to 102. \<open>locals\<close> holds, for every rank in order, its \<open>step\<close> and its two
  partial buffers. The root (rank 0) gathers the steps into \<open>sizes\<close>, computes
  \<open>displays\<close>, and gathers the partial buffers into its \<open>total_participation\<close> and
  \<open>total_indiff\<close>; both are then broadcast into the buffers every rank allocated.
  The result is the pair \<open>(total_participation, total_indiff)\<close> of every rank.
\<close>

definition synchronize :: "int \<Rightarrow> int \<Rightarrow> (int \<Rightarrow> nat \<Rightarrow> int) \<Rightarrow> (int \<times> int list \<times> int list) list \<Rightarrow>
    fault + (int list \<times> int list) list" where
  "synchronize num_procs nrows junk locals =
     (case mpi_gather (map fst locals) (gk_ismalloc num_procs 0) of
        Inl e \<Rightarrow> Inl e
      | Inr sizes \<Rightarrow>
     (case compute_displays num_procs sizes (gk_ismalloc num_procs 0) of
        Inl e \<Rightarrow> Inl e
      | Inr displays \<Rightarrow>
     (case mpi_gatherv (map (\<lambda>(step, partial_participation, partial_indiff).
                               (partial_participation, step)) locals)
             sizes displays 0 (gk_imalloc (junk 0) nrows) of
        Inl e \<Rightarrow> Inl e
      | Inr total_participation \<Rightarrow>
     (case mpi_gatherv (map (\<lambda>(step, partial_participation, partial_indiff).
                               (partial_indiff, step)) locals)
             sizes displays 0 (gk_imalloc (junk 0) nrows) of
        Inl e \<Rightarrow> Inl e
      | Inr total_indiff \<Rightarrow>
          collect (map (\<lambda>id_ctrl.
              (case mpi_bcast total_participation nrows
                      (if id_ctrl = 0 then total_participation else gk_imalloc (junk id_ctrl) nrows) of
                 Inl e \<Rightarrow> Inl e
               | Inr tp \<Rightarrow>
                   (case mpi_bcast total_indiff nrows
                           (if id_ctrl = 0 then total_indiff else gk_imalloc (junk id_ctrl) nrows) of
                      Inl e \<Rightarrow> Inl e
                    | Inr ti \<Rightarrow> Inr (tp, ti))))
            (map int [0..<length locals]))))))"

text \<open>
  The whole function on \<open>num_procs\<close> workers; rank \<open>r\<close> returns the \<open>r\<close>-th pair
  (\<open>total_participation\<close> and \<open>*indifference\<close>).
\<close>

definition lslim_learn_pu_all :: "int \<Rightarrow> int \<Rightarrow> (int \<Rightarrow> int \<Rightarrow> cdouble) \<Rightarrow> int \<Rightarrow> int list \<Rightarrow>
    (int \<Rightarrow> nat \<Rightarrow> int) \<Rightarrow> fault + (int list \<times> int list) list" where
  "lslim_learn_pu_all num_procs num_clusters training_error nrows participation junk =
     (case collect (map (\<lambda>id_ctrl. local_pass num_procs num_clusters training_error nrows
                                     participation (junk id_ctrl) id_ctrl)
                        (map int [0..<nat num_procs])) of
        Inl e \<Rightarrow> Inl e
      | Inr locals \<Rightarrow> synchronize num_procs nrows junk locals)"

text \<open>
  The sequential run the specification compares with: \<open>lslim_learn_pu\<close> applied to
  every user in index order, the results appended to the two vectors.
\<close>

function sequential_loop :: "int \<Rightarrow> (int \<Rightarrow> int \<Rightarrow> cdouble) \<Rightarrow> int list \<Rightarrow> int \<Rightarrow> int \<Rightarrow>
    int list \<times> int list \<Rightarrow> fault + (int list \<times> int list)" where
  "sequential_loop num_clusters training_error participation nrows u (assignments, indiffs) =
     (if u < nrows then
        (case learn_user num_clusters training_error participation u of
           Inl e \<Rightarrow> Inl e
         | Inr (assignment, indiff) \<Rightarrow>
             sequential_loop num_clusters training_error participation nrows (u + 1)
               (assignments @ [assignment], indiffs @ [indiff]))
      else Inr (assignments, indiffs))"
  by pat_completeness auto
termination
  by (relation "measure (\<lambda>(num_clusters, training_error, participation, nrows, u, s).
        nat (nrows - u))") auto

declare sequential_loop.simps [simp del]

definition sequential_round :: "int \<Rightarrow> (int \<Rightarrow> int \<Rightarrow> cdouble) \<Rightarrow> int \<Rightarrow> int list \<Rightarrow>
    fault + (int list \<times> int list)" where
  "sequential_round num_clusters training_error nrows participation =
     sequential_loop num_clusters training_error participation nrows 0 ([], [])"

text \<open>
  The array \<open>displays\<close> after the iterations before \<open>i\<close>: prefix sums of \<open>sizes\<close> up
  to index \<open>i\<close>, zeros behind.
\<close>

definition displays_inv :: "int list \<Rightarrow> nat \<Rightarrow> nat \<Rightarrow> int list" where
  "displays_inv sizes n i = map (\<lambda>j. if j \<le> i then sum_list (take j sizes) else 0) [0..<n]"

section \<open>The memory of one worker\<close>

text \<open>
  For the claim about the input array the arrays live in a memory: \<open>blocks\<close> maps the
  address of an allocated int array to its contents, \<open>next_free\<close> is the address the
  next allocation returns, and \<open>model_ncols\<close> is the field \<^verbatim>\<open>model->ncols\<close>. A memory
  is well formed when nothing is allocated at or above \<open>next_free\<close>. Reading or writing
  through an address that is not allocated is a fault.
\<close>

record memory =
  blocks :: "nat \<Rightarrow> int list option"
  next_free :: nat
  model_ncols :: int

definition mem_wf :: "memory \<Rightarrow> bool" where
  "mem_wf m \<longleftrightarrow> (\<forall>a. next_free m \<le> a \<longrightarrow> blocks m a = None)"

definition mem_alloc :: "int list \<Rightarrow> memory \<Rightarrow> nat \<times> memory" where
  "mem_alloc content m =
     (next_free m, m\<lparr>blocks := (blocks m)(next_free m \<mapsto> content), next_free := Suc (next_free m)\<rparr>)"

definition mem_free :: "nat \<Rightarrow> memory \<Rightarrow> memory" where
  "mem_free a m = m\<lparr>blocks := (blocks m)(a := None)\<rparr>"

definition mem_read :: "memory \<Rightarrow> nat \<Rightarrow> int \<Rightarrow> fault + int" where
  "mem_read m a i =
     (case blocks m a of None \<Rightarrow> Inl BadPointer | Some xs \<Rightarrow> array_read xs i)"

definition mem_write :: "memory \<Rightarrow> nat \<Rightarrow> int \<Rightarrow> int \<Rightarrow> fault + memory" where
  "mem_write m a i v =
     (case blocks m a of
        None \<Rightarrow> Inl BadPointer
      | Some xs \<Rightarrow>
          (case array_write xs i v of
             Inl e \<Rightarrow> Inl e
           | Inr xs' \<Rightarrow> Inr (m\<lparr>blocks := (blocks m)(a \<mapsto> xs')\<rparr>)))"

text \<open>
  \<open>mem_receive\<close> is what a collective does to its receive buffer: it leaves the
  received contents there. \<open>mem_buffer\<close> is the contents of a buffer handed to a
  collective.
\<close>

definition mem_receive :: "nat \<Rightarrow> int list \<Rightarrow> memory \<Rightarrow> memory" where
  "mem_receive a content m = m\<lparr>blocks := (blocks m)(a \<mapsto> content)\<rparr>"

definition mem_buffer :: "memory \<Rightarrow> nat \<Rightarrow> fault + int list" where
  "mem_buffer m a = (case blocks m a of None \<Rightarrow> Inl BadPointer | Some xs \<Rightarrow> Inr xs)"

text \<open>
  Lines 65 to 69 on the memory: \<open>participation\<close>, \<open>partial_participation\<close> and
  \<open>partial_indiff\<close> are addresses. \<open>lslim_learn_pu\<close> gets \<open>participation[u]\<close> by value;
  the error array it allocates it frees again.
\<close>

function learn_loop_mem :: "int \<Rightarrow> (int \<Rightarrow> int \<Rightarrow> cdouble) \<Rightarrow> nat \<Rightarrow> int \<Rightarrow> int \<Rightarrow> nat \<Rightarrow> nat \<Rightarrow>
    int \<Rightarrow> memory \<Rightarrow> fault + memory" where
  "learn_loop_mem num_clusters training_error participation startu endu
       partial_participation partial_indiff u m =
     (if u < endu then
        (case mem_read m participation u of
           Inl e \<Rightarrow> Inl e
         | Inr p \<Rightarrow>
             (case lslim_learn_pu num_clusters training_error u p of
                Inl e \<Rightarrow> Inl e
              | Inr (assignment, indiff) \<Rightarrow>
                  (case mem_write m partial_participation (u - startu) assignment of
                     Inl e \<Rightarrow> Inl e
                   | Inr m' \<Rightarrow>
                       (case mem_write m' partial_indiff (u - startu) indiff of
                          Inl e \<Rightarrow> Inl e
                        | Inr m'' \<Rightarrow>
                            learn_loop_mem num_clusters training_error participation startu endu
                              partial_participation partial_indiff (u + 1) m''))))
      else Inr m)"
  by pat_completeness auto
termination
  by (relation "measure (\<lambda>(num_clusters, training_error, participation, startu, endu,
        partial_participation, partial_indiff, u, m). nat (endu - u))") auto

declare learn_loop_mem.simps [simp del]

text \<open>
  Lines 56 and 57: \<^verbatim>\<open>model->ncols\<close> is raised to \<open>size * num_clusters\<close>. The three
  are C \<^verbatim>\<open>int\<close>s of 32 bits, and the product is a machine product: \<open>int_mul\<close> is
  the product in two's complement, wrapped into \<open>[-2^31, 2^31)\<close> (C leaves the
  overflow of a signed product undefined; the compiled code wraps). The call of
  \<^verbatim>\<open>gk_csr_CreateIndex\<close> in line 58 rebuilds the column index inside the model
  matrix; the memory here holds the int arrays of this function, not the matrices.
\<close>

definition int_wrap :: "int \<Rightarrow> int" where
  "int_wrap x = (x + 2 ^ 31) mod 2 ^ 32 - 2 ^ 31"

definition int_mul :: "int \<Rightarrow> int \<Rightarrow> int" where
  "int_mul a b = int_wrap (a * b)"

definition widen_ncols :: "int \<Rightarrow> int \<Rightarrow> memory \<Rightarrow> memory" where
  "widen_ncols size_ctrl num_clusters m =
     (if int_mul size_ctrl num_clusters > model_ncols m
      then m\<lparr>model_ncols := int_mul size_ctrl num_clusters\<rparr> else m)"

text \<open>Lines 44 to 69 of one worker on its memory.\<close>

definition local_pass_mem :: "int \<Rightarrow> int \<Rightarrow> int \<Rightarrow> (int \<Rightarrow> int \<Rightarrow> cdouble) \<Rightarrow> int \<Rightarrow> nat \<Rightarrow> (nat \<Rightarrow> int) \<Rightarrow>
    int \<Rightarrow> memory \<Rightarrow> fault + (int \<times> nat \<times> nat \<times> memory)" where
  "local_pass_mem num_procs size_ctrl num_clusters training_error datasize participation junk id_ctrl m =
     (case worker_range datasize num_procs id_ctrl of
        Inl e \<Rightarrow> Inl e
      | Inr (step, startu, endu) \<Rightarrow>
          (let m0 = widen_ncols size_ctrl num_clusters m;
               (partial_participation, m1) = mem_alloc (gk_imalloc junk step) m0;
               (partial_indiff, m2) = mem_alloc (gk_imalloc junk step) m1
           in case learn_loop_mem num_clusters training_error participation startu endu
                     partial_participation partial_indiff startu m2 of
                Inl e \<Rightarrow> Inl e
              | Inr m3 \<Rightarrow> Inr (step, partial_participation, partial_indiff, m3)))"

text \<open>The step and the two partial buffers of a worker, as it hands them to the collectives.\<close>

definition send_buffers :: "int \<times> nat \<times> nat \<times> memory \<Rightarrow> fault + (int \<times> int list \<times> int list)" where
  "send_buffers l =
     (case l of (step, partial_participation, partial_indiff, m) \<Rightarrow>
        (case mem_buffer m partial_participation of
           Inl e \<Rightarrow> Inl e
         | Inr pp \<Rightarrow>
             (case mem_buffer m partial_indiff of
                Inl e \<Rightarrow> Inl e
              | Inr pd \<Rightarrow> Inr (step, pp, pd))))"

text \<open>
  Lines 75 to 113 on the memory of the worker \<open>id_ctrl\<close>. Only the root allocates
  \<open>sizes\<close> and \<open>displays\<close> (elsewhere they stay \<^verbatim>\<open>NULL\<close>); \<open>sizes_v\<close> and
  \<open>displays_v\<close> are what \<^verbatim>\<open>MPI_Gather\<close> and the loop leave in them, \<open>totals\<close> what
  \<^verbatim>\<open>MPI_Gatherv\<close> and \<^verbatim>\<open>MPI_Bcast\<close> leave in \<open>total_participation\<close> and
  \<open>total_indiff\<close>. The partial buffers are freed, on the root also \<open>sizes\<close> and
  \<open>displays\<close>. The result is the returned pointer, the pointer stored in
  \<^verbatim>\<open>*indifference\<close>, and the memory.
\<close>

definition sync_rank_mem :: "int \<Rightarrow> int \<Rightarrow> (nat \<Rightarrow> int) \<Rightarrow> int \<Rightarrow> int list \<Rightarrow> int list \<Rightarrow>
    int list \<times> int list \<Rightarrow> int \<times> nat \<times> nat \<times> memory \<Rightarrow> (nat \<times> nat) \<times> memory" where
  "sync_rank_mem num_procs nrows junk id_ctrl sizes_v displays_v totals l =
     (case l of (step, partial_participation, partial_indiff, m) \<Rightarrow>
        (let (root_bufs, m1) =
               (if id_ctrl = 0
                then (let (sizes, ma) = mem_alloc (gk_ismalloc num_procs 0) m;
                          (displays, mb) = mem_alloc (gk_ismalloc num_procs 0) ma
                      in (Some (sizes, displays), mb))
                else (None, m));
             m2 = (case root_bufs of
                     Some (sizes, displays) \<Rightarrow>
                       mem_receive displays displays_v (mem_receive sizes sizes_v m1)
                   | None \<Rightarrow> m1);
             (total_participation, m3) = mem_alloc (gk_imalloc junk nrows) m2;
             (total_indiff, m4) = mem_alloc (gk_imalloc junk nrows) m3;
             m5 = mem_receive total_indiff (snd totals)
                    (mem_receive total_participation (fst totals) m4);
             m6 = mem_free partial_indiff (mem_free partial_participation m5);
             m7 = (case root_bufs of
                     Some (sizes, displays) \<Rightarrow> mem_free displays (mem_free sizes m6)
                   | None \<Rightarrow> m6)
         in ((total_participation, total_indiff), m7)))"

text \<open>
  The round on the memories of all workers: worker \<open>r\<close> has the memory \<open>mem r\<close> and its
  copy of the participation vector at the address \<open>participation r\<close>.
\<close>

definition lslim_learn_pu_all_mem :: "int \<Rightarrow> int \<Rightarrow> int \<Rightarrow> (int \<Rightarrow> int \<Rightarrow> cdouble) \<Rightarrow> int \<Rightarrow> (int \<Rightarrow> nat) \<Rightarrow>
    (int \<Rightarrow> nat \<Rightarrow> int) \<Rightarrow> (int \<Rightarrow> memory) \<Rightarrow> fault + ((nat \<times> nat) \<times> memory) list" where
  "lslim_learn_pu_all_mem num_procs size_ctrl num_clusters training_error nrows participation junk mem =
     (case collect (map (\<lambda>id_ctrl. local_pass_mem num_procs size_ctrl num_clusters training_error nrows
                          (participation id_ctrl) (junk id_ctrl) id_ctrl (mem id_ctrl))
                        (map int [0..<nat num_procs])) of
        Inl e \<Rightarrow> Inl e
      | Inr ls \<Rightarrow>
     (case collect (map send_buffers ls) of
        Inl e \<Rightarrow> Inl e
      | Inr locals \<Rightarrow>
     (case compute_displays num_procs (map fst locals) (gk_ismalloc num_procs 0) of
        Inl e \<Rightarrow> Inl e
      | Inr displays_v \<Rightarrow>
     (case synchronize num_procs nrows junk locals of
        Inl e \<Rightarrow> Inl e
      | Inr totals \<Rightarrow>
          Inr (map (\<lambda>k. sync_rank_mem num_procs nrows (junk (int k)) (int k) (map fst locals) displays_v
                          (totals ! k) (ls ! k))
                   [0..<length ls])))))"

text \<open>
  The step and the two partial vectors of worker \<open>w\<close> when user \<open>v\<close> has the result
  \<open>g v\<close>, and the memory of the worker after its loop.
\<close>

definition block_values :: "(int \<Rightarrow> int \<times> int) \<Rightarrow> int \<Rightarrow> int \<Rightarrow> int \<Rightarrow> int \<times> int list \<times> int list" where
  "block_values g datasize num_procs w =
     (bsize datasize num_procs w,
      map (\<lambda>k. fst (g (bstart datasize num_procs w + int k))) [0..<nat (bsize datasize num_procs w)],
      map (\<lambda>k. snd (g (bstart datasize num_procs w + int k))) [0..<nat (bsize datasize num_procs w)])"

definition local_memory :: "(int \<Rightarrow> int \<times> int) \<Rightarrow> int \<Rightarrow> int \<Rightarrow> int \<Rightarrow> int \<Rightarrow> int \<Rightarrow> memory \<Rightarrow>
    int \<times> nat \<times> nat \<times> memory" where
  "local_memory g nrows num_procs size_ctrl num_clusters w m =
     (case block_values g nrows num_procs w of (step, A, B) \<Rightarrow>
        (step, next_free m, Suc (next_free m),
         (widen_ncols size_ctrl num_clusters m)\<lparr>blocks := (blocks m)(next_free m \<mapsto> A, Suc (next_free m) \<mapsto> B),
                                                next_free := Suc (Suc (next_free m))\<rparr>))"

text \<open>A memory that holds the participation vector of the scenario at address 3.\<close>

definition scenario_memory :: memory where
  "scenario_memory = \<lparr>blocks = (\<lambda>a. None)(3 \<mapsto> [0, 0, 1, 0]), next_free = 4, model_ncols = 10\<rparr>"


section \<open>Comparisons of doubles\<close>

lemma dlt_irrefl: "\<not> dlt x x"
  by (cases x) simp_all

lemma dlt_trans: "dlt x y \<Longrightarrow> dlt y z \<Longrightarrow> dlt x z"
  by (cases x; cases y; cases z) simp_all

lemma dlt_asym: "dlt x y \<Longrightarrow> \<not> dlt y x"
  by (cases x; cases y) simp_all

lemma deq_dlt_trans: "deq x y \<Longrightarrow> dlt y z \<Longrightarrow> dlt x z"
  by (cases x; cases y; cases z) simp_all

lemma dlt_not_deq: "dlt x y \<Longrightarrow> \<not> deq y x"
  by (cases x; cases y) simp_all

section \<open>The loops of \<^verbatim>\<open>lslim_learn_pu\<close>\<close>

lemma fill_error_result:
  "0 \<le> i \<Longrightarrow> length error = nat n \<Longrightarrow>
   fill_error t n i error = Inr (take (nat i) error @ map (\<lambda>c. t (int c)) [nat i..<nat n])"
proof (induction t n i error rule: fill_error.induct)
  case (1 terr num_clusters cluster_id error)
  show ?case
  proof (cases "cluster_id < num_clusters")
    case True
    let ?e = "error[nat cluster_id := terr cluster_id]"
    have w: "array_write error cluster_id (terr cluster_id) = Inr ?e"
      using True 1 by (simp add: array_write_def)
    have ih: "fill_error terr num_clusters (cluster_id + 1) ?e =
        Inr (take (nat (cluster_id + 1)) ?e @ map (\<lambda>c. terr (int c)) [nat (cluster_id + 1)..<nat num_clusters])"
      using 1 True w by simp
    have s: "nat (cluster_id + 1) = Suc (nat cluster_id)" using 1 by simp
    have lt: "nat cluster_id < length error" using True 1 by simp
    have t: "take (Suc (nat cluster_id)) ?e = take (nat cluster_id) error @ [terr cluster_id]"
      using lt by (simp add: take_Suc_conv_app_nth)
    have u: "[nat cluster_id..<nat num_clusters] = nat cluster_id # [Suc (nat cluster_id)..<nat num_clusters]"
      using True 1 by (simp add: upt_conv_Cons)
    show ?thesis
      using True w ih s t u "1.prems"(1) by (subst fill_error.simps) simp
  next
    case False
    then show ?thesis using 1 by (subst fill_error.simps) simp
  qed
qed



lemma scan_invD:
  assumes "scan_inv error n c i (a, m)"
  shows "0 \<le> a" "a < n" "m = error ! nat a"
    "\<And>j. 0 \<le> j \<Longrightarrow> j < i \<Longrightarrow> \<not> dlt (error ! nat j) m"
    "a \<noteq> c \<Longrightarrow> a < i"
    "a \<noteq> c \<Longrightarrow> dlt m (error ! nat c)"
    "\<And>j. a \<noteq> c \<Longrightarrow> 0 \<le> j \<Longrightarrow> j < a \<Longrightarrow> \<not> deq (error ! nat j) m"
  using assms unfolding scan_inv_def by auto

lemma scan_invI:
  assumes "0 \<le> a" "a < n" "m = error ! nat a"
    "\<And>j. 0 \<le> j \<Longrightarrow> j < i \<Longrightarrow> \<not> dlt (error ! nat j) m"
    "a \<noteq> c \<Longrightarrow> a < i"
    "a \<noteq> c \<Longrightarrow> dlt m (error ! nat c)"
    "\<And>j. a \<noteq> c \<Longrightarrow> 0 \<le> j \<Longrightarrow> j < a \<Longrightarrow> \<not> deq (error ! nat j) m"
  shows "scan_inv error n c i (a, m)"
  using assms unfolding scan_inv_def by auto

lemma scan_inv_step_lt:
  assumes inv: "scan_inv error n c i (a, m)" and i: "0 \<le> i" "i < n"
    and lt: "dlt (error ! nat i) m"
  shows "scan_inv error n c (i + 1) (i, error ! nat i)"
proof (rule scan_invI)
  show "0 \<le> i" "i < n" "error ! nat i = error ! nat i" using i by simp_all
next
  fix j assume j: "0 \<le> j" "j < i + 1"
  show "\<not> dlt (error ! nat j) (error ! nat i)"
  proof (cases "j = i")
    case True then show ?thesis by (simp add: dlt_irrefl)
  next
    case False
    then have "j < i" using j by simp
    then have "\<not> dlt (error ! nat j) m" using scan_invD(4) [OF inv] j by simp
    then show ?thesis using lt dlt_trans by blast
  qed
next
  show "i < i + 1" by simp
next
  show "dlt (error ! nat i) (error ! nat c)"
  proof (cases "a = c")
    case True then show ?thesis using lt scan_invD(3) [OF inv] by simp
  next
    case False
    then have "dlt m (error ! nat c)" using scan_invD(6) [OF inv] by simp
    then show ?thesis using lt dlt_trans by blast
  qed
next
  fix j assume j: "0 \<le> j" "j < i"
  have "\<not> dlt (error ! nat j) m" using scan_invD(4) [OF inv] j by simp
  then show "\<not> deq (error ! nat j) (error ! nat i)"
    using lt deq_dlt_trans by blast
qed

lemma scan_inv_step_ge:
  assumes inv: "scan_inv error n c i (a, m)" and i: "0 \<le> i" "i < n"
    and ge: "\<not> dlt (error ! nat i) m"
  shows "scan_inv error n c (i + 1) (a, m)"
proof (rule scan_invI)
  show "0 \<le> a" "a < n" "m = error ! nat a" using scan_invD(1,2,3) [OF inv] by simp_all
next
  fix j assume j: "0 \<le> j" "j < i + 1"
  show "\<not> dlt (error ! nat j) m"
  proof (cases "j = i")
    case True then show ?thesis using ge by simp
  next
    case False
    then have "j < i" using j by simp
    then show ?thesis using scan_invD(4) [OF inv] j by simp
  qed
next
  assume "a \<noteq> c"
  then show "a < i + 1" using scan_invD(5) [OF inv] by simp
next
  assume "a \<noteq> c"
  then show "dlt m (error ! nat c)" using scan_invD(6) [OF inv] by simp
next
  fix j assume "a \<noteq> c" "0 \<le> j" "j < a"
  then show "\<not> deq (error ! nat j) m" using scan_invD(7) [OF inv] by simp
qed

lemma scan_min_inv:
  "scan_inv error n c i s \<Longrightarrow> 0 \<le> i \<Longrightarrow> i \<le> n \<Longrightarrow> length error = nat n \<Longrightarrow>
   \<exists>s'. scan_min error n i s = Inr s' \<and> scan_inv error n c n s'"
proof (induction error n i s rule: scan_min.induct)
  case (1 error num_clusters cluster_id new_assignment min_error)
  show ?case
  proof (cases "cluster_id < num_clusters")
    case True
    have r: "array_read error cluster_id = Inr (error ! nat cluster_id)"
      using True 1 by (simp add: array_read_def)
    show ?thesis
    proof (cases "dlt (error ! nat cluster_id) min_error")
      case lt: True
      have "scan_inv error num_clusters c (cluster_id + 1) (cluster_id, error ! nat cluster_id)"
        using scan_inv_step_lt [OF "1.prems"(1) "1.prems"(2) True lt] .
      then have "\<exists>s'. scan_min error num_clusters (cluster_id + 1) (cluster_id, error ! nat cluster_id) = Inr s'
          \<and> scan_inv error num_clusters c num_clusters s'"
        using "1.IH"(1) [OF True r lt] True "1.prems" by simp
      then show ?thesis
        using True r lt by (subst scan_min.simps) simp
    next
      case ge: False
      have "scan_inv error num_clusters c (cluster_id + 1) (new_assignment, min_error)"
        using scan_inv_step_ge [OF "1.prems"(1) "1.prems"(2) True ge] .
      then have "\<exists>s'. scan_min error num_clusters (cluster_id + 1) (new_assignment, min_error) = Inr s'
          \<and> scan_inv error num_clusters c num_clusters s'"
        using "1.IH"(2) [OF True r ge] True "1.prems" by simp
      then show ?thesis
        using True r ge by (subst scan_min.simps) simp
    qed
  next
    case False
    then have "cluster_id = num_clusters" using 1 by simp
    then show ?thesis using "1.prems"(1) by (subst scan_min.simps) simp
  qed
qed

lemma scan_tie_result:
  "0 \<le> i \<Longrightarrow> length error = nat n \<Longrightarrow>
   scan_tie error n p m i d =
     Inr (if \<exists>j. i \<le> j \<and> j < n \<and> j \<noteq> p \<and> deq (error ! nat j) m then 1 else d)"
proof (induction error n p m i d rule: scan_tie.induct)
  case (1 error num_clusters participation min_error cluster_id indiff)
  define Q where "Q k \<longleftrightarrow> (\<exists>j. k \<le> j \<and> j < num_clusters \<and> j \<noteq> participation \<and> deq (error ! nat j) min_error)" for k
  show ?case
  proof (cases "cluster_id < num_clusters")
    case True
    have r: "array_read error cluster_id = Inr (error ! nat cluster_id)"
      using True 1 by (simp add: array_read_def)
    have q: "Q cluster_id \<longleftrightarrow>
        (cluster_id \<noteq> participation \<and> deq (error ! nat cluster_id) min_error) \<or> Q (cluster_id + 1)"
    proof
      assume "Q cluster_id"
      then obtain j where j: "cluster_id \<le> j" "j < num_clusters" "j \<noteq> participation"
          "deq (error ! nat j) min_error"
        unfolding Q_def by blast
      show "(cluster_id \<noteq> participation \<and> deq (error ! nat cluster_id) min_error) \<or> Q (cluster_id + 1)"
      proof (cases "j = cluster_id")
        case True then show ?thesis using j by simp
      next
        case False
        then have "cluster_id + 1 \<le> j" using j by simp
        then show ?thesis unfolding Q_def using j by blast
      qed
    next
      assume "(cluster_id \<noteq> participation \<and> deq (error ! nat cluster_id) min_error) \<or> Q (cluster_id + 1)"
      then show "Q cluster_id"
      proof
        assume "cluster_id \<noteq> participation \<and> deq (error ! nat cluster_id) min_error"
        then show ?thesis unfolding Q_def using True by force
      next
        assume "Q (cluster_id + 1)"
        then obtain j where "cluster_id + 1 \<le> j" "j < num_clusters" "j \<noteq> participation"
          "deq (error ! nat j) min_error"
          unfolding Q_def by blast
        moreover from this have "cluster_id \<le> j" by simp
        ultimately show ?thesis unfolding Q_def by blast
      qed
    qed
    show ?thesis
    proof (cases "cluster_id \<noteq> participation")
      case ne: True
      let ?d = "if deq (error ! nat cluster_id) min_error then 1 else indiff"
      have "scan_tie error num_clusters participation min_error cluster_id indiff =
            scan_tie error num_clusters participation min_error (cluster_id + 1) ?d"
        using True ne r by (subst scan_tie.simps) simp
      also have "\<dots> = Inr (if Q (cluster_id + 1) then 1 else ?d)"
        unfolding Q_def using "1.IH"(1) [OF True ne r] "1.prems" by simp
      also have "\<dots> = Inr (if Q cluster_id then 1 else indiff)"
        using q ne by simp
      finally show ?thesis unfolding Q_def .
    next
      case eq: False
      have "scan_tie error num_clusters participation min_error cluster_id indiff =
            scan_tie error num_clusters participation min_error (cluster_id + 1) indiff"
        using True eq by (subst scan_tie.simps) simp
      also have "\<dots> = Inr (if Q (cluster_id + 1) then 1 else indiff)"
        unfolding Q_def using "1.IH"(2) [OF True] eq "1.prems" by simp
      also have "\<dots> = Inr (if Q cluster_id then 1 else indiff)"
        using q eq by simp
      finally show ?thesis unfolding Q_def .
    qed
  next
    case False
    then show ?thesis by (subst scan_tie.simps) auto
  qed
qed


lemma error_array:
  "fill_error (training_error u) n 0 (replicate (nat n) (Fin 0)) =
     Inr (map (\<lambda>c. training_error u (int c)) [0..<nat n])"
  using fill_error_result [of 0 "replicate (nat n) (Fin 0)" n "training_error u"] by simp

lemma lslim_learn_pu_out_of_range:
  assumes "\<not> (0 \<le> p \<and> p < n)"
  shows "lslim_learn_pu n training_error u p = Inl OutOfBounds"
  using assms by (auto simp add: lslim_learn_pu_def error_array array_read_def)

lemma lslim_learn_pu_in_range:
  fixes training_error :: "int \<Rightarrow> int \<Rightarrow> cdouble" and u n :: int
  assumes p: "0 \<le> p" "p < n"
  defines "error \<equiv> map (\<lambda>c. training_error u (int c)) [0..<nat n]"
  shows "\<exists>k m. scan_inv error n p n (k, m) \<and>
      lslim_learn_pu n training_error u p =
        Inr (k, if k = p \<and> (\<exists>j. 0 \<le> j \<and> j < n \<and> j \<noteq> p \<and> deq (error ! nat j) m) then 1 else 0)"
proof -
  have len: "length error = nat n" by (simp add: error_def)
  have rd: "array_read error p = Inr (error ! nat p)"
    using p len by (simp add: array_read_def)
  have "scan_inv error n p 0 (p, error ! nat p)"
    using p by (auto simp add: scan_inv_def)
  then obtain s' where s': "scan_min error n 0 (p, error ! nat p) = Inr s'" "scan_inv error n p n s'"
    using scan_min_inv [of error n p 0 "(p, error ! nat p)"] p len by auto
  obtain k m where km: "s' = (k, m)" by (cases s')
  have tie: "scan_tie error n p m 0 0 =
      Inr (if \<exists>j. 0 \<le> j \<and> j < n \<and> j \<noteq> p \<and> deq (error ! nat j) m then 1 else 0)"
    using scan_tie_result [of 0 error n p m 0] len by simp
  have "lslim_learn_pu n training_error u p =
        Inr (k, if k = p \<and> (\<exists>j. 0 \<le> j \<and> j < n \<and> j \<noteq> p \<and> deq (error ! nat j) m) then 1 else 0)"
    unfolding lslim_learn_pu_def error_array error_def [symmetric]
    using rd s'(1) km tie by simp
  then show ?thesis using s'(2) km by blast
qed

lemma learn_pu_stays:
  assumes "0 \<le> c" "c < n"
    and "\<forall>j. 0 \<le> j \<and> j < n \<longrightarrow> \<not> dlt (training_error u j) (training_error u c)"
  shows "lslim_learn_pu n training_error u c =
     Inr (c, if \<exists>d. 0 \<le> d \<and> d < n \<and> d \<noteq> c \<and> deq (training_error u d) (training_error u c)
             then 1 else 0)"
proof -
  define error where "error = map (\<lambda>c. training_error u (int c)) [0..<nat n]"
  have nth: "\<And>j. 0 \<le> j \<Longrightarrow> j < n \<Longrightarrow> error ! nat j = training_error u j"
    by (simp add: error_def)
  obtain k m where inv: "scan_inv error n c n (k, m)"
    and res: "lslim_learn_pu n training_error u c =
        Inr (k, if k = c \<and> (\<exists>j. 0 \<le> j \<and> j < n \<and> j \<noteq> c \<and> deq (error ! nat j) m) then 1 else 0)"
    using lslim_learn_pu_in_range [OF assms(1,2), of training_error u] unfolding error_def by blast
  note d = scan_invD [OF inv]
  have k: "0 \<le> k" "k < n" using d(1,2) by simp_all
  have m: "m = training_error u k" using d(3) nth k by simp
  have kc: "k = c"
  proof (rule ccontr)
    assume "k \<noteq> c"
    then have "dlt (training_error u k) (training_error u c)"
      using d(6) m nth assms(1,2) by simp
    then show False using assms(3) k by blast
  qed
  have "(\<exists>j. 0 \<le> j \<and> j < n \<and> j \<noteq> c \<and> deq (error ! nat j) m) \<longleftrightarrow>
        (\<exists>d. 0 \<le> d \<and> d < n \<and> d \<noteq> c \<and> deq (training_error u d) (training_error u c))"
    using nth m kc by auto
  then show ?thesis using res kc by simp
qed

section \<open>Claims about the per-user optimizer\<close>

text \<open>
  Claim C1. For a current assignment \<open>c\<close> in \<open>[0, num_clusters)\<close>: if some cluster has a
  strictly lower training error than \<open>c\<close>, \<open>lslim_learn_pu\<close> returns a cluster \<open>k\<close> with
  the indifference flag 0, where \<open>k\<close> is strictly below the incumbent, no cluster is
  strictly below \<open>k\<close> (its error is the minimum), and no cluster with a smaller id has
  the same error (it is the lowest id that achieves the minimum).
\<close>

theorem learn_pu_improvement:
  assumes "0 \<le> c" "c < n"
    and "\<exists>j. 0 \<le> j \<and> j < n \<and> dlt (training_error u j) (training_error u c)"
  shows "\<exists>k. lslim_learn_pu n training_error u c = Inr (k, 0) \<and> 0 \<le> k \<and> k < n \<and>
           dlt (training_error u k) (training_error u c) \<and>
           (\<forall>j. 0 \<le> j \<and> j < n \<longrightarrow> \<not> dlt (training_error u j) (training_error u k)) \<and>
           (\<forall>j. 0 \<le> j \<and> j < k \<longrightarrow> \<not> deq (training_error u j) (training_error u k))"
proof -
  define error where "error = map (\<lambda>c. training_error u (int c)) [0..<nat n]"
  have nth: "\<And>j. 0 \<le> j \<Longrightarrow> j < n \<Longrightarrow> error ! nat j = training_error u j"
    by (simp add: error_def)
  obtain k m where inv: "scan_inv error n c n (k, m)"
    and res: "lslim_learn_pu n training_error u c =
        Inr (k, if k = c \<and> (\<exists>j. 0 \<le> j \<and> j < n \<and> j \<noteq> c \<and> deq (error ! nat j) m) then 1 else 0)"
    using lslim_learn_pu_in_range [OF assms(1,2), of training_error u] unfolding error_def by blast
  note d = scan_invD [OF inv]
  have k: "0 \<le> k" "k < n" using d(1,2) by simp_all
  have m: "m = training_error u k" using d(3) nth k by simp
  have min: "\<And>j. 0 \<le> j \<Longrightarrow> j < n \<Longrightarrow> \<not> dlt (training_error u j) (training_error u k)"
    using d(4) nth m by simp
  have ne: "k \<noteq> c" using min assms(3) by blast
  have lt: "dlt (training_error u k) (training_error u c)"
    using d(6) [OF ne] m nth assms(1,2) by simp
  have first: "\<And>j. 0 \<le> j \<Longrightarrow> j < k \<Longrightarrow> \<not> deq (training_error u j) (training_error u k)"
  proof -
    fix j assume j: "0 \<le> j" "j < k"
    then have "j < n" using k by simp
    then show "\<not> deq (training_error u j) (training_error u k)"
      using d(7) [OF ne j] nth [OF j(1)] m by simp
  qed
  show ?thesis using res ne k lt min first by auto
qed

theorem learn_pu_improvement_witness:
  "lslim_learn_pu 2 scenario_error 1 0 = Inr (1, 0)"
proof -
  have h: "\<exists>j. 0 \<le> j \<and> j < 2 \<and> dlt (scenario_error 1 j) (scenario_error 1 0)"
    by (rule exI [of _ 1]) (simp add: scenario_error_def)
  obtain k where k: "lslim_learn_pu 2 scenario_error 1 0 = Inr (k, 0)" "0 \<le> k" "k < 2"
      "dlt (scenario_error 1 k) (scenario_error 1 0)"
    using learn_pu_improvement [of 0 2 scenario_error 1, OF _ _ h] by auto
  have "k \<noteq> 0" using k(4) by (auto simp add: scenario_error_def)
  then have "k = 1" using k(2,3) by simp
  then show ?thesis using k(1) by simp
qed

text \<open>
  Claim C2. For a current assignment \<open>c\<close> in \<open>[0, num_clusters)\<close> with no cluster strictly
  below it, \<open>lslim_learn_pu\<close> returns \<open>c\<close>; the indifference flag is 1 if some other
  cluster has an error equal to that of \<open>c\<close>, and 0 if none has.
\<close>

theorem learn_pu_tie_detection:
  assumes "0 \<le> c" "c < n"
    and "\<forall>j. 0 \<le> j \<and> j < n \<longrightarrow> \<not> dlt (training_error u j) (training_error u c)"
  shows "((\<exists>d. 0 \<le> d \<and> d < n \<and> d \<noteq> c \<and> deq (training_error u d) (training_error u c)) \<longrightarrow>
            lslim_learn_pu n training_error u c = Inr (c, 1)) \<and>
         (\<not> (\<exists>d. 0 \<le> d \<and> d < n \<and> d \<noteq> c \<and> deq (training_error u d) (training_error u c)) \<longrightarrow>
            lslim_learn_pu n training_error u c = Inr (c, 0))"
  using learn_pu_stays [of c n training_error u] assms by auto

theorem learn_pu_tie_detection_witness:
  "lslim_learn_pu 2 scenario_error 2 1 = Inr (1, 1) \<and>
   lslim_learn_pu 2 scenario_error 1 1 = Inr (1, 0)"
proof -
  have a: "\<forall>j. 0 \<le> j \<and> j < 2 \<longrightarrow> \<not> dlt (scenario_error 2 j) (scenario_error 2 1)"
    by (simp add: scenario_error_def)
  have b: "\<exists>d. 0 \<le> d \<and> d < 2 \<and> d \<noteq> 1 \<and> deq (scenario_error 2 d) (scenario_error 2 1)"
    by (rule exI [of _ 0]) (simp add: scenario_error_def)
  have c: "\<forall>j. 0 \<le> j \<and> j < 2 \<longrightarrow> \<not> dlt (scenario_error 1 j) (scenario_error 1 1)"
    by (simp add: scenario_error_def)
  have d: "\<not> (\<exists>d. 0 \<le> d \<and> d < 2 \<and> d \<noteq> 1 \<and> deq (scenario_error 1 d) (scenario_error 1 1))"
  proof
    assume "\<exists>d. 0 \<le> d \<and> d < 2 \<and> d \<noteq> 1 \<and> deq (scenario_error 1 d) (scenario_error 1 1)"
    then obtain d where "0 \<le> d" "d < 2" "d \<noteq> 1" "deq (scenario_error 1 d) (scenario_error 1 1)"
      by blast
    moreover from this have "d = 0" by simp
    ultimately show False by (simp add: scenario_error_def)
  qed
  show ?thesis
    using learn_pu_tie_detection [of 1 2 scenario_error 2, OF _ _ a]
      learn_pu_tie_detection [of 1 2 scenario_error 1, OF _ _ c] b d
    by simp
qed

text \<open>
  Claim C6. If the error of the current assignment \<open>c\<close> is the strict unique minimum,
  that is, strictly below the error of every other cluster, \<open>lslim_learn_pu\<close> returns
  \<open>c\<close> with the indifference flag 0.
\<close>

theorem learn_pu_incumbency:
  assumes c: "0 \<le> c" "c < n"
    and strict: "\<forall>j. 0 \<le> j \<and> j < n \<and> j \<noteq> c \<longrightarrow> dlt (training_error u c) (training_error u j)"
  shows "lslim_learn_pu n training_error u c = Inr (c, 0)"
proof -
  have no_lower: "\<forall>j. 0 \<le> j \<and> j < n \<longrightarrow> \<not> dlt (training_error u j) (training_error u c)"
    using strict dlt_asym dlt_irrefl by metis
  have no_tie: "\<not> (\<exists>d. 0 \<le> d \<and> d < n \<and> d \<noteq> c \<and> deq (training_error u d) (training_error u c))"
    using strict dlt_not_deq by blast
  show ?thesis using learn_pu_stays [of c n training_error u] c no_lower no_tie by simp
qed

theorem learn_pu_incumbency_witness:
  "lslim_learn_pu 2 scenario_error 0 0 = Inr (0, 0)"
proof -
  have "\<forall>j. 0 \<le> j \<and> j < 2 \<and> j \<noteq> 0 \<longrightarrow> dlt (scenario_error 0 0) (scenario_error 0 j)"
    by (simp add: scenario_error_def)
  then show ?thesis
    using learn_pu_incumbency [of 0 2 scenario_error 0] by simp
qed

text \<open>
  Claim C10. If the current assignment satisfies \<open>0 \<le> participation < num_clusters\<close>
  (so there is at least one cluster), every access to the error array is in bounds and
  \<open>lslim_learn_pu\<close> returns a result; otherwise the function faults, and it is the
  read \<open>error[participation]\<close> that is out of bounds: the array is filled without a
  fault and has \<open>num_clusters\<close> cells.
\<close>

theorem learn_pu_bounds:
  "(0 \<le> participation \<and> participation < num_clusters \<longrightarrow>
      1 \<le> num_clusters \<and> (\<exists>r. lslim_learn_pu num_clusters training_error u participation = Inr r)) \<and>
   (\<not> (0 \<le> participation \<and> participation < num_clusters) \<longrightarrow>
      lslim_learn_pu num_clusters training_error u participation = Inl OutOfBounds) \<and>
   (\<exists>error.
      fill_error (training_error u) num_clusters 0 (replicate (nat num_clusters) (Fin 0)) = Inr error \<and>
      length error = nat num_clusters \<and>
      (array_read error participation = Inl OutOfBounds \<longleftrightarrow>
         \<not> (0 \<le> participation \<and> participation < num_clusters)))"
proof (intro conjI impI)
  assume p: "0 \<le> participation \<and> participation < num_clusters"
  then show "1 \<le> num_clusters" by simp
  show "\<exists>r. lslim_learn_pu num_clusters training_error u participation = Inr r"
    using lslim_learn_pu_in_range [of participation num_clusters training_error u] p by blast
next
  assume "\<not> (0 \<le> participation \<and> participation < num_clusters)"
  then show "lslim_learn_pu num_clusters training_error u participation = Inl OutOfBounds"
    by (rule lslim_learn_pu_out_of_range)
next
  let ?error = "map (\<lambda>c. training_error u (int c)) [0..<nat num_clusters]"
  have "array_read ?error participation = Inl OutOfBounds \<longleftrightarrow>
      \<not> (0 \<le> participation \<and> participation < num_clusters)"
    by (auto simp add: array_read_def)
  then show "\<exists>error.
      fill_error (training_error u) num_clusters 0 (replicate (nat num_clusters) (Fin 0)) = Inr error \<and>
      length error = nat num_clusters \<and>
      (array_read error participation = Inl OutOfBounds \<longleftrightarrow>
         \<not> (0 \<le> participation \<and> participation < num_clusters))"
    using error_array [of training_error u num_clusters] by (intro exI [of _ ?error]) simp
qed

theorem learn_pu_bounds_witness:
  "(\<exists>r. lslim_learn_pu 2 scenario_error 3 1 = Inr r) \<and>
   lslim_learn_pu 2 scenario_error 3 2 = Inl OutOfBounds \<and>
   lslim_learn_pu 2 scenario_error 3 (- 1) = Inl OutOfBounds"
  using learn_pu_bounds [of 1 2 scenario_error 3] learn_pu_bounds [of 2 2 scenario_error 3]
    learn_pu_bounds [of "- 1" 2 scenario_error 3]
  by simp

section \<open>The balanced block partition\<close>

lemma c_div_nonneg: "0 \<le> a \<Longrightarrow> 0 < b \<Longrightarrow> c_div a b = a div b"
  by (cases "a = 0") (simp_all add: c_div_def)

lemma c_mod_nonneg: "0 \<le> a \<Longrightarrow> 0 < b \<Longrightarrow> c_mod a b = a mod b"
  by (simp add: c_mod_def c_div_nonneg minus_div_mult_eq_mod)

lemma gk_min_min: "gk_min a b = min a b"
  by (simp add: gk_min_def min_def)

lemma block_range_eq:
  assumes "0 \<le> datasize" "1 \<le> num_procs"
  shows "block_range datasize num_procs w =
     Inr (datasize div num_procs + (if w < datasize mod num_procs then 1 else 0),
          bstart datasize num_procs w, bstart datasize num_procs (w + 1))"
proof -
  have "min (w + 1) (datasize mod num_procs) =
        min w (datasize mod num_procs) + (if w < datasize mod num_procs then 1 else 0)"
    by (simp add: min_def)
  then show ?thesis
    using assms
    by (simp add: block_range_def Let_def c_div_nonneg c_mod_nonneg gk_min_min bstart_def algebra_simps)
qed

lemma bstart_0: "0 \<le> datasize \<Longrightarrow> 1 \<le> num_procs \<Longrightarrow> bstart datasize num_procs 0 = 0"
  by (simp add: bstart_def)

lemma bstart_last: "1 \<le> num_procs \<Longrightarrow> bstart datasize num_procs num_procs = datasize"
proof -
  assume "1 \<le> num_procs"
  then have "datasize mod num_procs < num_procs" by simp
  then have "min num_procs (datasize mod num_procs) = datasize mod num_procs" by simp
  then show ?thesis by (simp add: bstart_def)
qed

lemma bstart_mono:
  assumes "0 \<le> datasize" "1 \<le> num_procs" "w \<le> w'"
  shows "bstart datasize num_procs w \<le> bstart datasize num_procs w'"
proof -
  have "0 \<le> datasize div num_procs" using assms by (simp add: pos_imp_zdiv_nonneg_iff)
  then have "(datasize div num_procs) * w \<le> (datasize div num_procs) * w'"
    using assms(3) by (rule mult_left_mono [rotated])
  moreover have "min w (datasize mod num_procs) \<le> min w' (datasize mod num_procs)"
    using assms(3) by simp
  ultimately show ?thesis by (simp add: bstart_def)
qed

lemma worker_range_eq:
  assumes "0 \<le> datasize" "1 \<le> num_procs"
  shows "worker_range datasize num_procs w =
     Inr (datasize div num_procs + (if w < datasize mod num_procs then 1 else 0),
          bstart datasize num_procs w, bstart datasize num_procs (w + 1))"
proof -
  have "w = num_procs - 1 \<Longrightarrow> bstart datasize num_procs (w + 1) = datasize"
    using bstart_last [OF assms(2)] by simp
  then show ?thesis
    using assms by (auto simp add: worker_range_def block_range_eq clamp_last_def)
qed

lemma owner_exists:
  assumes "0 \<le> datasize" "1 \<le> num_procs" "0 \<le> u"
  shows "u < bstart datasize num_procs (int k) \<Longrightarrow>
     \<exists>w. 0 \<le> w \<and> w < int k \<and> bstart datasize num_procs w \<le> u \<and> u < bstart datasize num_procs (w + 1)"
proof (induction k)
  case 0
  then show ?case using assms by (simp add: bstart_0)
next
  case (Suc k)
  show ?case
  proof (cases "u < bstart datasize num_procs (int k)")
    case True
    then obtain w where "0 \<le> w" "w < int k" "bstart datasize num_procs w \<le> u"
        "u < bstart datasize num_procs (w + 1)"
      using Suc.IH by blast
    then show ?thesis by (intro exI [of _ w]) simp
  next
    case False
    then show ?thesis using Suc.prems by (intro exI [of _ "int k"]) (simp add: add.commute)
  qed
qed

lemma owner_unique:
  assumes "0 \<le> datasize" "1 \<le> num_procs"
    and "bstart datasize num_procs w \<le> u" "u < bstart datasize num_procs (w + 1)"
    and "bstart datasize num_procs w' \<le> u" "u < bstart datasize num_procs (w' + 1)"
  shows "w = w'"
proof (rule ccontr)
  assume "w \<noteq> w'"
  then consider "w + 1 \<le> w'" | "w' + 1 \<le> w" by linarith
  then show False
  proof cases
    case 1
    then show False using bstart_mono [OF assms(1,2) 1] assms(4,5) by simp
  next
    case 2
    then show False using bstart_mono [OF assms(1,2) 2] assms(3,6) by simp
  qed
qed

lemma bstart_step:
  "bstart datasize num_procs w + bsize datasize num_procs w = bstart datasize num_procs (w + 1)"
proof -
  have "min (w + 1) (datasize mod num_procs) =
        min w (datasize mod num_procs) + (if w < datasize mod num_procs then 1 else 0)"
    by (simp add: min_def)
  then show ?thesis by (simp add: bstart_def bsize_def algebra_simps)
qed

lemma worker_range_spec:
  assumes "0 \<le> datasize" "1 \<le> num_procs"
  shows "worker_range datasize num_procs w =
     Inr (bsize datasize num_procs w, bstart datasize num_procs w,
          bstart datasize num_procs w + bsize datasize num_procs w)"
  using worker_range_eq [OF assms, of w] by (simp add: bstart_step) (simp add: bsize_def)

lemma bstart_bounds:
  assumes "0 \<le> datasize" "1 \<le> num_procs" "0 \<le> w" "w < num_procs"
  shows "0 \<le> bstart datasize num_procs w"
    and "bstart datasize num_procs w + bsize datasize num_procs w \<le> datasize"
proof -
  show "0 \<le> bstart datasize num_procs w"
    using bstart_mono [OF assms(1,2), of 0 w] assms(3) bstart_0 [OF assms(1,2)] by simp
  have "bstart datasize num_procs (w + 1) \<le> bstart datasize num_procs num_procs"
    using assms(4) by (intro bstart_mono [OF assms(1,2)]) simp
  then show "bstart datasize num_procs w + bsize datasize num_procs w \<le> datasize"
    using bstart_last [OF assms(2)] by (simp add: bstart_step)
qed

lemma bsize_nonneg:
  assumes "0 \<le> datasize" "1 \<le> num_procs"
  shows "0 \<le> bsize datasize num_procs w"
proof -
  have "0 \<le> datasize div num_procs" using assms by (simp add: pos_imp_zdiv_nonneg_iff)
  then show ?thesis by (simp add: bsize_def)
qed

lemma owner_exists_unique:
  assumes d: "0 \<le> datasize" "1 \<le> num_procs" and u: "0 \<le> u" "u < datasize"
  shows "\<exists>!w. 0 \<le> w \<and> w < num_procs \<and>
      bstart datasize num_procs w \<le> u \<and> u < bstart datasize num_procs w + bsize datasize num_procs w"
proof -
  have "u < bstart datasize num_procs (int (nat num_procs))"
    using bstart_last [OF d(2), of datasize] u d by simp
  then obtain w where w: "0 \<le> w" "w < int (nat num_procs)" "bstart datasize num_procs w \<le> u"
      "u < bstart datasize num_procs (w + 1)"
    using owner_exists [OF d u(1)] by blast
  show ?thesis
  proof (rule ex1I [of _ w])
    show "0 \<le> w \<and> w < num_procs \<and> bstart datasize num_procs w \<le> u \<and>
        u < bstart datasize num_procs w + bsize datasize num_procs w"
      using w d by (simp add: bstart_step)
  next
    fix w'
    assume "0 \<le> w' \<and> w' < num_procs \<and> bstart datasize num_procs w' \<le> u \<and>
        u < bstart datasize num_procs w' + bsize datasize num_procs w'"
    then show "w' = w"
      using owner_unique [OF d, of w' u w] w by (simp add: bstart_step)
  qed
qed

lemma block_range_no_overflow:
  assumes "0 \<le> datasize" "0 \<le> id_ctrl" "id_ctrl < num_procs"
  shows "0 \<le> c_div datasize num_procs \<and> c_div datasize num_procs \<le> datasize \<and>
         0 \<le> c_mod datasize num_procs \<and> c_mod datasize num_procs < num_procs \<and>
         0 \<le> c_div datasize num_procs * id_ctrl \<and>
         c_div datasize num_procs * id_ctrl +
           gk_min id_ctrl (c_mod datasize num_procs) + c_div datasize num_procs +
           (if id_ctrl < c_mod datasize num_procs then 1 else 0) \<le> datasize"
proof -
  have p: "1 \<le> num_procs" using assms by simp
  have q: "0 \<le> datasize div num_procs" using assms p by (simp add: pos_imp_zdiv_nonneg_iff)
  have "datasize div num_procs \<le> datasize" using zdiv_mono2 [of datasize 1 num_procs] assms(1) p by simp
  moreover have "0 \<le> datasize div num_procs * id_ctrl" using q assms(2) by simp
  moreover have "bstart datasize num_procs id_ctrl + bsize datasize num_procs id_ctrl \<le> datasize"
    using bstart_bounds(2) [OF assms(1) p assms(2,3)] .
  ultimately show ?thesis
    using assms p q by (simp add: c_div_nonneg c_mod_nonneg gk_min_min bstart_def bsize_def)
qed

section \<open>Claims about the work partitioner\<close>

text \<open>
  Claim C3. For \<open>numUsers \<ge> 0\<close> and \<open>numWorkers \<ge> 1\<close> the range of worker \<open>w\<close> computed
  by the code starts at \<open>base*w + min(w, remainder)\<close> and has \<open>base + 1\<close> users for
  the first \<open>remainder\<close> workers and \<open>base\<close> for the rest; the ranges start at 0, each
  ends where the next starts, the last ends at \<open>numUsers\<close>, all lie inside
  \<open>[0, numUsers)\<close>, and every user has exactly one owner. For 7 users and 3 workers
  the sizes are 3, 2, 2 and the starts 0, 3, 5.
\<close>

theorem partition_tiles:
  assumes "0 \<le> datasize" "1 \<le> num_procs"
  shows "(\<forall>w. 0 \<le> w \<and> w < num_procs \<longrightarrow>
            worker_range datasize num_procs w =
              Inr (bsize datasize num_procs w, bstart datasize num_procs w,
                   bstart datasize num_procs w + bsize datasize num_procs w)) \<and>
         bstart datasize num_procs 0 = 0 \<and>
         (\<forall>w. bstart datasize num_procs w + bsize datasize num_procs w = bstart datasize num_procs (w + 1)) \<and>
         bstart datasize num_procs num_procs = datasize \<and>
         (\<forall>w. 0 \<le> w \<and> w < num_procs \<longrightarrow>
            0 \<le> bsize datasize num_procs w \<and> 0 \<le> bstart datasize num_procs w \<and>
            bstart datasize num_procs w + bsize datasize num_procs w \<le> datasize) \<and>
         (\<forall>u. 0 \<le> u \<and> u < datasize \<longrightarrow>
            (\<exists>!w. 0 \<le> w \<and> w < num_procs \<and> bstart datasize num_procs w \<le> u \<and>
                  u < bstart datasize num_procs w + bsize datasize num_procs w)) \<and>
         map (worker_range 7 3) [0, 1, 2] = [Inr (3, 0, 3), Inr (2, 3, 5), Inr (2, 5, 7)]"
proof (intro conjI allI impI)
  fix w
  show "worker_range datasize num_procs w =
      Inr (bsize datasize num_procs w, bstart datasize num_procs w,
           bstart datasize num_procs w + bsize datasize num_procs w)"
    by (rule worker_range_spec [OF assms])
  show "bstart datasize num_procs w + bsize datasize num_procs w = bstart datasize num_procs (w + 1)"
    by (rule bstart_step)
next
  show "bstart datasize num_procs 0 = 0" by (rule bstart_0 [OF assms])
  show "bstart datasize num_procs num_procs = datasize" by (rule bstart_last [OF assms(2)])
next
  fix w assume w: "0 \<le> w \<and> w < num_procs"
  show "0 \<le> bsize datasize num_procs w" by (rule bsize_nonneg [OF assms])
  show "0 \<le> bstart datasize num_procs w" using bstart_bounds(1) [OF assms] w by simp
  show "bstart datasize num_procs w + bsize datasize num_procs w \<le> datasize"
    using bstart_bounds(2) [OF assms] w by simp
next
  fix u assume "0 \<le> u \<and> u < datasize"
  then show "\<exists>!w. 0 \<le> w \<and> w < num_procs \<and> bstart datasize num_procs w \<le> u \<and>
      u < bstart datasize num_procs w + bsize datasize num_procs w"
    using owner_exists_unique [OF assms] by simp
next
  show "map (worker_range 7 3) [0, 1, 2] = [Inr (3, 0, 3), Inr (2, 3, 5), Inr (2, 5, 7)]"
    by (simp add: worker_range_def block_range_def clamp_last_def c_div_def c_mod_def gk_min_def)
qed

theorem partition_tiles_witness:
  "worker_range 7 3 0 = Inr (3, 0, 3) \<and> worker_range 7 3 1 = Inr (2, 3, 5) \<and>
   worker_range 7 3 2 = Inr (2, 5, 7) \<and> bstart 7 3 3 = 7"
  using partition_tiles [of 7 3] by (simp add: bstart_def bsize_def)

text \<open>
  Claim C7. For \<open>numUsers \<ge> 0\<close> and \<open>numWorkers \<ge> 1\<close> the condition of the clamp is
  false for every worker id: the end of the last worker's range already is \<open>numUsers\<close>,
  so the clamp leaves \<open>step\<close>, \<open>startu\<close> and \<open>endu\<close> as they are.
\<close>

theorem clamp_never_fires:
  assumes "0 \<le> datasize" "1 \<le> num_procs"
  shows "\<exists>step startu endu.
           block_range datasize num_procs id_ctrl = Inr (step, startu, endu) \<and>
           \<not> (endu < datasize \<and> id_ctrl = num_procs - 1) \<and>
           (id_ctrl = num_procs - 1 \<longrightarrow> endu = datasize) \<and>
           clamp_last datasize num_procs id_ctrl (step, startu, endu) = (step, startu, endu)"
proof -
  have "id_ctrl = num_procs - 1 \<Longrightarrow> bstart datasize num_procs (id_ctrl + 1) = datasize"
    using bstart_last [OF assms(2)] by simp
  then show ?thesis
    using assms by (auto simp add: block_range_eq clamp_last_def)
qed

theorem clamp_never_fires_witness:
  "block_range 7 3 2 = Inr (2, 5, 7) \<and> clamp_last 7 3 2 (2, 5, 7) = (2, 5, 7)"
  using clamp_never_fires [of 7 3 2]
  by (simp add: block_range_def c_div_def c_mod_def gk_min_def)

text \<open>
  Claim C8. For \<open>numUsers \<ge> 0\<close> and \<open>numWorkers \<ge> 1\<close> the block sizes the code gives to
  the workers differ by at most 1: their maximum minus their minimum is at most 1.
\<close>

theorem partition_balanced:
  assumes "0 \<le> datasize" "1 \<le> num_procs"
  shows "(\<forall>w. 0 \<le> w \<and> w < num_procs \<longrightarrow>
           (\<exists>startu endu. worker_range datasize num_procs w = Inr (bsize datasize num_procs w, startu, endu))) \<and>
         Max (bsize datasize num_procs ` {0..<num_procs}) - Min (bsize datasize num_procs ` {0..<num_procs}) \<le> 1"
proof
  show "\<forall>w. 0 \<le> w \<and> w < num_procs \<longrightarrow>
      (\<exists>startu endu. worker_range datasize num_procs w = Inr (bsize datasize num_procs w, startu, endu))"
    using worker_range_spec [OF assms] by blast
next
  let ?S = "bsize datasize num_procs ` {0..<num_procs}"
  have fin: "finite ?S" by simp
  have ne: "?S \<noteq> {}" using assms(2) by simp
  have "\<forall>s\<in>?S. s \<le> datasize div num_procs + 1" by (auto simp add: bsize_def)
  then have hi: "Max ?S \<le> datasize div num_procs + 1" using fin ne by simp
  have "\<forall>s\<in>?S. datasize div num_procs \<le> s" by (auto simp add: bsize_def)
  then have lo: "datasize div num_procs \<le> Min ?S" using fin ne by simp
  show "Max ?S - Min ?S \<le> 1" using hi lo by linarith
qed

theorem partition_balanced_witness:
  "Max (bsize 7 3 ` {0..<3}) - Min (bsize 7 3 ` {0..<3}) \<le> 1 \<and>
   (\<exists>startu endu. worker_range 7 3 0 = Inr (3, startu, endu)) \<and>
   (\<exists>startu endu. worker_range 7 3 2 = Inr (2, startu, endu))"
proof -
  have a: "\<forall>w. 0 \<le> w \<and> w < 3 \<longrightarrow>
      (\<exists>startu endu. worker_range 7 3 w = Inr (bsize 7 3 w, startu, endu))"
    and b: "Max (bsize 7 3 ` {0..<3}) - Min (bsize 7 3 ` {0..<3}) \<le> 1"
    using partition_balanced [of 7 3] by simp_all
  have "bsize 7 3 0 = 3" "bsize 7 3 2 = 2" by (simp_all add: bsize_def)
  then show ?thesis using a [rule_format, of 0] a [rule_format, of 2] b by simp
qed

section \<open>The collectives and the loops of \<^verbatim>\<open>lslim_learn_pu_all\<close>\<close>

lemma collect_map_Inr:
  "(\<And>x. x \<in> set xs \<Longrightarrow> h x = Inr (k x)) \<Longrightarrow> collect (map h xs) = Inr (map k xs)"
  by (induction xs) simp_all

lemma put_block_whole:
  "length msg = length recvbuf \<Longrightarrow> put_block recvbuf 0 msg = Inr msg"
  by (simp add: put_block_def)

lemma mpi_gather_sizes:
  "length steps = nat num_procs \<Longrightarrow> mpi_gather steps (gk_ismalloc num_procs 0) = Inr steps"
  by (simp add: mpi_gather_def gk_ismalloc_def put_block_whole)

lemma mpi_bcast_whole:
  "length root_buffer = nat count \<Longrightarrow> length buffer = nat count \<Longrightarrow> 0 \<le> count \<Longrightarrow>
   mpi_bcast root_buffer count buffer = Inr root_buffer"
  by (simp add: mpi_bcast_def send_block_def put_block_whole)


lemma displays_inv_step:
  assumes "Suc i < n" "length sizes = n"
  shows "(displays_inv sizes n i)[Suc i := displays_inv sizes n i ! i + sizes ! i] = displays_inv sizes n (Suc i)"
proof (rule nth_equalityI)
  show "length ((displays_inv sizes n i)[Suc i := displays_inv sizes n i ! i + sizes ! i]) =
      length (displays_inv sizes n (Suc i))"
    by (simp add: displays_inv_def)
next
  fix j assume "j < length ((displays_inv sizes n i)[Suc i := displays_inv sizes n i ! i + sizes ! i])"
  then have j: "j < n" by (simp add: displays_inv_def)
  have s: "sum_list (take (Suc i) sizes) = sum_list (take i sizes) + sizes ! i"
    using assms by (simp add: take_Suc_conv_app_nth)
  show "(displays_inv sizes n i)[Suc i := displays_inv sizes n i ! i + sizes ! i] ! j =
      displays_inv sizes n (Suc i) ! j"
  proof (cases "j = Suc i")
    case True
    then show ?thesis using assms j s by (simp add: displays_inv_def)
  next
    case False
    then show ?thesis using assms j by (auto simp add: displays_inv_def)
  qed
qed

lemma displays_loop_result:
  "0 \<le> i \<Longrightarrow> i \<le> num_procs \<Longrightarrow> length sizes = nat num_procs \<Longrightarrow>
   displays = displays_inv sizes (nat num_procs) (nat i) \<Longrightarrow>
   displays_loop num_procs sizes i displays =
     Inr (displays_inv sizes (nat num_procs) (nat num_procs))"
proof (induction num_procs sizes i displays rule: displays_loop.induct)
  case (1 num_procs sizes i displays)
  show ?case
  proof (cases "i < num_procs")
    case True
    show ?thesis
    proof (cases "i \<noteq> num_procs - 1")
      case ne: True
      have len: "length displays = nat num_procs" using "1.prems" by (simp add: displays_inv_def)
      have rd: "array_read displays i = Inr (displays ! nat i)"
        using True "1.prems" len by (simp add: array_read_def)
      have rs: "array_read sizes i = Inr (sizes ! nat i)"
        using True "1.prems" by (simp add: array_read_def)
      have wr: "array_write displays (i + 1) (displays ! nat i + sizes ! nat i) =
          Inr (displays[nat (i + 1) := displays ! nat i + sizes ! nat i])"
        using True ne "1.prems" len by (simp add: array_write_def)
      have n1: "nat (i + 1) = Suc (nat i)" using "1.prems" by simp
      have "displays[nat (i + 1) := displays ! nat i + sizes ! nat i] =
          displays_inv sizes (nat num_procs) (nat (i + 1))"
        unfolding n1 "1.prems"(4)
        using True ne "1.prems"(1,3) by (intro displays_inv_step) simp_all
      then have "displays_loop num_procs sizes (i + 1)
            (displays[nat (i + 1) := displays ! nat i + sizes ! nat i]) =
          Inr (displays_inv sizes (nat num_procs) (nat num_procs))"
        using "1.IH"(1) [OF True ne rd rs wr] True "1.prems" by simp
      then show ?thesis
        using True ne rd rs wr by (subst displays_loop.simps) simp
    next
      case last: False
      then have i: "i = num_procs - 1" by simp
      have "displays = displays_inv sizes (nat num_procs) (nat (i + 1))"
        unfolding "1.prems"(4) using i "1.prems"(1) by (auto simp add: displays_inv_def)
      then have "displays_loop num_procs sizes (i + 1) displays =
          Inr (displays_inv sizes (nat num_procs) (nat num_procs))"
        using "1.IH"(2) [OF True] last True "1.prems" by simp
      then show ?thesis using True last by (subst displays_loop.simps) simp
    qed
  next
    case False
    then have "i = num_procs" using "1.prems" by simp
    then show ?thesis using "1.prems" by (subst displays_loop.simps) simp
  qed
qed

lemma compute_displays_result:
  assumes "1 \<le> num_procs" "length sizes = nat num_procs"
  shows "compute_displays num_procs sizes (gk_ismalloc num_procs 0) =
     Inr (map (\<lambda>w. sum_list (take w sizes)) [0..<nat num_procs])"
proof -
  have w: "array_write (gk_ismalloc num_procs 0) 0 0 = Inr (gk_ismalloc num_procs 0)"
    using assms(1) by (simp add: array_write_def gk_ismalloc_def list_update_same_conv)
  have init: "gk_ismalloc num_procs 0 = displays_inv sizes (nat num_procs) (nat 0)"
    by (auto simp add: gk_ismalloc_def displays_inv_def intro!: nth_equalityI)
  have fin: "displays_inv sizes (nat num_procs) (nat num_procs) =
      map (\<lambda>w. sum_list (take w sizes)) [0..<nat num_procs]"
    by (simp add: displays_inv_def)
  show ?thesis
    unfolding compute_displays_def w
    using displays_loop_result [of 0 num_procs sizes "gk_ismalloc num_procs 0"] assms init fin
    by simp
qed

lemma sum_list_lengths: "sum_list (map (\<lambda>m. int (length m)) xs) = int (length (concat xs))"
  by (induction xs) simp_all

lemma length_concat_take_Suc:
  "r < length xs \<Longrightarrow> length (concat (take (Suc r) xs)) = length (concat (take r xs)) + length (xs ! r)"
  by (simp add: take_Suc_conv_app_nth)

lemma length_concat_take_le: "length (concat (take k xs)) \<le> length (concat xs)"
proof -
  have "concat xs = concat (take k xs) @ concat (drop k xs)"
    by (metis append_take_drop_id concat_append)
  then show ?thesis by simp
qed

lemma mpi_gatherv_concat:
  fixes msgs :: "int list list"
  defines "sizes \<equiv> map (\<lambda>m. int (length m)) msgs"
  defines "displs \<equiv> map (\<lambda>w. sum_list (take w (map (\<lambda>m. int (length m)) msgs))) [0..<length msgs]"
  assumes "k = length msgs - r" "r \<le> length msgs" "length recvbuf = length (concat msgs)"
  shows "mpi_gatherv (drop r (map (\<lambda>m. (m, int (length m))) msgs)) sizes displs (int r) recvbuf =
     Inr (take (length (concat (take r msgs))) recvbuf @ concat (drop r msgs))"
  using assms(3-)
proof (induction k arbitrary: r recvbuf)
  case 0
  then have "r = length msgs" by simp
  then show ?case using 0 by simp
next
  case (Suc k)
  then have r: "r < length msgs" by simp
  let ?m = "msgs ! r"
  let ?d = "length (concat (take r msgs))"
  have dr: "drop r (map (\<lambda>m. (m, int (length m))) msgs) =
      (?m, int (length ?m)) # drop (Suc r) (map (\<lambda>m. (m, int (length m))) msgs)"
    using r by (simp add: Cons_nth_drop_Suc [symmetric])
  have sb: "send_block ?m (int (length ?m)) = Inr ?m" by (simp add: send_block_def)
  have rc: "array_read sizes (int r) = Inr (int (length ?m))"
    using r by (simp add: array_read_def sizes_def)
  have "sum_list (take r (map (\<lambda>m. int (length m)) msgs)) = int ?d"
    by (simp add: take_map sum_list_lengths)
  then have rd: "array_read displs (int r) = Inr (int ?d)"
    using r by (simp add: array_read_def displs_def)
  have le: "?d + length ?m \<le> length recvbuf"
    using length_concat_take_le [of "Suc r" msgs] length_concat_take_Suc [OF r] Suc.prems(3) by simp
  let ?buf = "take ?d recvbuf @ ?m @ drop (?d + length ?m) recvbuf"
  have pb: "put_block recvbuf (int ?d) ?m = Inr ?buf"
    using le by (simp add: put_block_def)
  have len: "length ?buf = length (concat msgs)" using le Suc.prems(3) by simp
  have ih: "mpi_gatherv (drop (Suc r) (map (\<lambda>m. (m, int (length m))) msgs)) sizes displs (int (Suc r)) ?buf =
      Inr (take (length (concat (take (Suc r) msgs))) ?buf @ concat (drop (Suc r) msgs))"
    using Suc.IH [of "Suc r" ?buf] Suc.prems r len by simp
  have tk: "take (length (concat (take (Suc r) msgs))) ?buf = take ?d recvbuf @ ?m"
    using le by (simp add: length_concat_take_Suc [OF r])
  have cd: "concat (drop r msgs) = ?m @ concat (drop (Suc r) msgs)"
    using r by (simp add: Cons_nth_drop_Suc [symmetric])
  have "mpi_gatherv (drop r (map (\<lambda>m. (m, int (length m))) msgs)) sizes displs (int r) recvbuf =
      mpi_gatherv (drop (Suc r) (map (\<lambda>m. (m, int (length m))) msgs)) sizes displs (int (Suc r)) ?buf"
    unfolding dr using sb rc rd pb by (simp add: add.commute)
  also have "\<dots> = Inr (take (length (concat (take (Suc r) msgs))) ?buf @ concat (drop (Suc r) msgs))"
    by (rule ih)
  also have "\<dots> = Inr (take ?d recvbuf @ concat (drop r msgs))"
    unfolding tk cd by simp
  finally show ?case .
qed

lemma mpi_gatherv_all:
  fixes msgs :: "int list list"
  assumes "length recvbuf = length (concat msgs)"
  shows "mpi_gatherv (map (\<lambda>m. (m, int (length m))) msgs) (map (\<lambda>m. int (length m)) msgs)
           (map (\<lambda>w. sum_list (take w (map (\<lambda>m. int (length m)) msgs))) [0..<length msgs]) 0 recvbuf =
         Inr (concat msgs)"
  using mpi_gatherv_concat [of "length msgs" msgs 0 recvbuf] assms by simp

lemma length_gk_imalloc: "length (gk_imalloc junk n) = nat n"
  by (simp add: gk_imalloc_def)

lemma synchronize_concat:
  assumes procs: "1 \<le> num_procs" "length locals = nat num_procs"
    and shape: "\<And>step pp pd. (step, pp, pd) \<in> set locals \<Longrightarrow> step = int (length pp) \<and> length pd = length pp"
    and total: "0 \<le> nrows" "nat nrows = length (concat (map (\<lambda>l. fst (snd l)) locals))"
  shows "synchronize num_procs nrows junk locals =
     Inr (replicate (nat num_procs)
            (concat (map (\<lambda>l. fst (snd l)) locals), concat (map (\<lambda>l. snd (snd l)) locals)))"
proof -
  let ?pps = "map (\<lambda>l. fst (snd l)) locals"
  let ?pis = "map (\<lambda>l. snd (snd l)) locals"
  let ?sizes = "map fst locals"
  have sz_p: "?sizes = map (\<lambda>m. int (length m)) ?pps"
    using shape by (auto simp add: comp_def)
  have sz_i: "?sizes = map (\<lambda>m. int (length m)) ?pis"
    using shape by (auto simp add: comp_def)
  have send_p: "map (\<lambda>(step, partial_participation, partial_indiff). (partial_participation, step)) locals =
      map (\<lambda>m. (m, int (length m))) ?pps"
    using shape by (auto simp add: comp_def)
  have send_i: "map (\<lambda>(step, partial_participation, partial_indiff). (partial_indiff, step)) locals =
      map (\<lambda>m. (m, int (length m))) ?pis"
    using shape by (auto simp add: comp_def)
  have g: "mpi_gather ?sizes (gk_ismalloc num_procs 0) = Inr ?sizes"
    using procs by (simp add: mpi_gather_sizes)
  have d: "compute_displays num_procs ?sizes (gk_ismalloc num_procs 0) =
      Inr (map (\<lambda>w. sum_list (take w ?sizes)) [0..<nat num_procs])"
    using procs by (simp add: compute_displays_result)
  have len_i: "length (concat ?pis) = length (concat ?pps)"
  proof -
    have "map length ?pis = map length ?pps"
      using shape by (auto simp add: comp_def)
    then show ?thesis by (simp only: length_concat)
  qed
  have gp: "mpi_gatherv (map (\<lambda>m. (m, int (length m))) ?pps) ?sizes
        (map (\<lambda>w. sum_list (take w ?sizes)) [0..<nat num_procs]) 0 (gk_imalloc (junk 0) nrows) =
      Inr (concat ?pps)"
  proof -
    have l: "length (gk_imalloc (junk 0) nrows) = length (concat ?pps)"
      using total by (simp add: length_gk_imalloc)
    have n: "nat num_procs = length ?pps" using procs(2) by simp
    show ?thesis unfolding n sz_p by (rule mpi_gatherv_all [OF l])
  qed
  have gi: "mpi_gatherv (map (\<lambda>m. (m, int (length m))) ?pis) ?sizes
        (map (\<lambda>w. sum_list (take w ?sizes)) [0..<nat num_procs]) 0 (gk_imalloc (junk 0) nrows) =
      Inr (concat ?pis)"
  proof -
    have l: "length (gk_imalloc (junk 0) nrows) = length (concat ?pis)"
      using total len_i by (simp add: length_gk_imalloc)
    have n: "nat num_procs = length ?pis" using procs(2) by simp
    show ?thesis unfolding n sz_i by (rule mpi_gatherv_all [OF l])
  qed
  have bp: "\<And>buffer. length buffer = nat nrows \<Longrightarrow>
      mpi_bcast (concat ?pps) nrows buffer = Inr (concat ?pps)"
    using total by (intro mpi_bcast_whole) simp_all
  have bi: "\<And>buffer. length buffer = nat nrows \<Longrightarrow>
      mpi_bcast (concat ?pis) nrows buffer = Inr (concat ?pis)"
    using total len_i by (intro mpi_bcast_whole) simp_all
  have lp: "\<And>r. length (if r = 0 then concat ?pps else gk_imalloc (junk r) nrows) = nat nrows"
    using total by (simp add: length_gk_imalloc)
  have li: "\<And>r. length (if r = 0 then concat ?pis else gk_imalloc (junk r) nrows) = nat nrows"
    using total len_i by (simp add: length_gk_imalloc)
  have "synchronize num_procs nrows junk locals =
      collect (map (\<lambda>id_ctrl. Inr (concat ?pps, concat ?pis)) (map int [0..<length locals]))"
    by (simp only: synchronize_def g d send_p send_i sum.case gp gi bp [OF lp] bi [OF li])
  also have "\<dots> = Inr (map (\<lambda>id_ctrl. (concat ?pps, concat ?pis)) (map int [0..<length locals]))"
    by (rule collect_map_Inr) simp
  also have "\<dots> = Inr (replicate (nat num_procs) (concat ?pps, concat ?pis))"
    using procs(2) by (simp add: map_replicate_const)
  finally show ?thesis .
qed

lemma learn_loop_result:
  "(\<forall>v. u \<le> v \<and> v < endu \<longrightarrow> learn_user nc te part v = Inr (g v)) \<Longrightarrow>
   startu \<le> u \<Longrightarrow> u \<le> endu \<Longrightarrow> length pp = nat (endu - startu) \<Longrightarrow> length pd = nat (endu - startu) \<Longrightarrow>
   learn_loop nc te part startu endu u (pp, pd) =
     Inr (take (nat (u - startu)) pp @ map (\<lambda>k. fst (g (u + int k))) [0..<nat (endu - u)],
          take (nat (u - startu)) pd @ map (\<lambda>k. snd (g (u + int k))) [0..<nat (endu - u)])"
proof (induction nc te part startu endu u "(pp, pd)" arbitrary: pp pd rule: learn_loop.induct)
  case (1 num_clusters training_error participation startu endu u partial_participation partial_indiff)
  show ?case
  proof (cases "u < endu")
    case True
    obtain a d where g: "g u = (a, d)" by (cases "g u")
    let ?k = "nat (u - startu)"
    let ?m = "nat (endu - (u + 1))"
    have lu: "learn_user num_clusters training_error participation u = Inr (a, d)"
      using "1.prems"(1) True g by simp
    have k: "?k < length partial_participation" "?k < length partial_indiff"
      using True "1.prems" by simp_all
    have wp: "array_write partial_participation (u - startu) a = Inr (partial_participation[?k := a])"
      using True "1.prems" by (simp add: array_write_def)
    have wi: "array_write partial_indiff (u - startu) d = Inr (partial_indiff[?k := d])"
      using True "1.prems" by (simp add: array_write_def)
    have ih: "learn_loop num_clusters training_error participation startu endu (u + 1)
          (partial_participation[?k := a], partial_indiff[?k := d]) =
        Inr (take (nat (u + 1 - startu)) (partial_participation[?k := a]) @
               map (\<lambda>k. fst (g (u + 1 + int k))) [0..<?m],
             take (nat (u + 1 - startu)) (partial_indiff[?k := d]) @
               map (\<lambda>k. snd (g (u + 1 + int k))) [0..<?m])"
      using "1.hyps" [OF True lu refl wp wi] True "1.prems" by simp
    have n1: "nat (u + 1 - startu) = Suc ?k" using "1.prems" by simp
    have n2: "nat (endu - u) = Suc ?m" using True by simp
    have tp: "take (Suc ?k) (partial_participation[?k := a]) = take ?k partial_participation @ [a]"
      using k by (simp add: take_Suc_conv_app_nth)
    have ti: "take (Suc ?k) (partial_indiff[?k := d]) = take ?k partial_indiff @ [d]"
      using k by (simp add: take_Suc_conv_app_nth)
    have mp: "map (\<lambda>k. fst (g (u + int k))) [0..<Suc ?m] = a # map (\<lambda>k. fst (g (u + 1 + int k))) [0..<?m]"
      using g by (simp add: map_upt_Suc algebra_simps del: upt_Suc)
    have mi: "map (\<lambda>k. snd (g (u + int k))) [0..<Suc ?m] = d # map (\<lambda>k. snd (g (u + 1 + int k))) [0..<?m]"
      using g by (simp add: map_upt_Suc algebra_simps del: upt_Suc)
    have "learn_loop num_clusters training_error participation startu endu u
          (partial_participation, partial_indiff) =
        learn_loop num_clusters training_error participation startu endu (u + 1)
          (partial_participation[?k := a], partial_indiff[?k := d])"
      using True lu wp wi by (subst learn_loop.simps) simp
    also note ih
    finally show ?thesis unfolding n1 n2 tp ti mp mi by simp
  next
    case False
    then have "u = endu" using "1.prems" by simp
    then show ?thesis using "1.prems" by (subst learn_loop.simps) simp
  qed
qed

lemma sequential_loop_result:
  "(\<forall>v. u \<le> v \<and> v < nrows \<longrightarrow> learn_user nc te part v = Inr (g v)) \<Longrightarrow> u \<le> nrows \<Longrightarrow>
   sequential_loop nc te part nrows u (as, ds) =
     Inr (as @ map (\<lambda>k. fst (g (u + int k))) [0..<nat (nrows - u)],
          ds @ map (\<lambda>k. snd (g (u + int k))) [0..<nat (nrows - u)])"
proof (induction nc te part nrows u "(as, ds)" arbitrary: as ds rule: sequential_loop.induct)
  case (1 num_clusters training_error participation nrows u assignments indiffs)
  show ?case
  proof (cases "u < nrows")
    case True
    obtain a d where g: "g u = (a, d)" by (cases "g u")
    let ?m = "nat (nrows - (u + 1))"
    have lu: "learn_user num_clusters training_error participation u = Inr (a, d)"
      using "1.prems"(1) True g by simp
    have ih: "sequential_loop num_clusters training_error participation nrows (u + 1)
          (assignments @ [a], indiffs @ [d]) =
        Inr ((assignments @ [a]) @ map (\<lambda>k. fst (g (u + 1 + int k))) [0..<?m],
             (indiffs @ [d]) @ map (\<lambda>k. snd (g (u + 1 + int k))) [0..<?m])"
      using "1.hyps" [OF True lu refl] True "1.prems" by simp
    have n2: "nat (nrows - u) = Suc ?m" using True by simp
    have mp: "map (\<lambda>k. fst (g (u + int k))) [0..<Suc ?m] = a # map (\<lambda>k. fst (g (u + 1 + int k))) [0..<?m]"
      using g by (simp add: map_upt_Suc algebra_simps del: upt_Suc)
    have mi: "map (\<lambda>k. snd (g (u + int k))) [0..<Suc ?m] = d # map (\<lambda>k. snd (g (u + 1 + int k))) [0..<?m]"
      using g by (simp add: map_upt_Suc algebra_simps del: upt_Suc)
    have "sequential_loop num_clusters training_error participation nrows u (assignments, indiffs) =
        sequential_loop num_clusters training_error participation nrows (u + 1)
          (assignments @ [a], indiffs @ [d])"
      using True lu by (subst sequential_loop.simps) simp
    also note ih
    finally show ?thesis unfolding n2 mp mi by simp
  next
    case False
    then have "u = nrows" using "1.prems" by simp
    then show ?thesis by (subst sequential_loop.simps) simp
  qed
qed

lemma concat_blocks:
  assumes d: "0 \<le> datasize" "1 \<le> num_procs"
  shows "m \<le> nat num_procs \<Longrightarrow>
     concat (map (\<lambda>w. map (\<lambda>k. h (bstart datasize num_procs (int w) + int k))
                          [0..<nat (bsize datasize num_procs (int w))]) [0..<m]) =
     map (\<lambda>k. h (int k)) [0..<nat (bstart datasize num_procs (int m))]"
proof (induction m)
  case 0
  then show ?case using d by (simp add: bstart_0)
next
  case (Suc m)
  let ?a = "nat (bstart datasize num_procs (int m))"
  let ?b = "nat (bsize datasize num_procs (int m))"
  have m: "0 \<le> int m" "int m < num_procs" using Suc.prems by simp_all
  have a: "0 \<le> bstart datasize num_procs (int m)" using bstart_bounds(1) [OF d m] .
  have b: "0 \<le> bsize datasize num_procs (int m)" using bsize_nonneg [OF d] .
  have "bstart datasize num_procs (int (Suc m)) =
      bstart datasize num_procs (int m) + bsize datasize num_procs (int m)"
    using bstart_step [of datasize num_procs "int m"] by (simp add: add.commute)
  then have n: "nat (bstart datasize num_procs (int (Suc m))) = ?a + ?b"
    using a b by (simp add: nat_add_distrib)
  have "map (\<lambda>k. h (int k)) [?a..<?a + ?b] = map (\<lambda>k. h (int k)) (map (\<lambda>i. i + ?a) [0..<?b])"
    by (simp only: map_add_upt add.commute)
  also have "\<dots> = map (\<lambda>k. h (bstart datasize num_procs (int m) + int k)) [0..<?b]"
    using a by (simp add: comp_def add.commute)
  finally have blk: "map (\<lambda>k. h (int k)) [?a..<?a + ?b] =
      map (\<lambda>k. h (bstart datasize num_procs (int m) + int k)) [0..<?b]" .
  have "[0..<?a + ?b] = [0..<?a] @ [?a..<?a + ?b]"
    by (rule upt_add_eq_append) simp
  then have "map (\<lambda>k. h (int k)) [0..<?a + ?b] =
      map (\<lambda>k. h (int k)) [0..<?a] @ map (\<lambda>k. h (bstart datasize num_procs (int m) + int k)) [0..<?b]"
    using blk by simp
  then show ?case
    unfolding n using Suc.IH Suc.prems by simp
qed

lemma local_pass_result:
  assumes d: "0 \<le> datasize" "1 \<le> num_procs" and w: "0 \<le> w" "w < num_procs"
    and g: "\<forall>v. 0 \<le> v \<and> v < datasize \<longrightarrow> learn_user nc te part v = Inr (g v)"
  shows "local_pass num_procs nc te datasize part junk w =
     Inr (bsize datasize num_procs w,
          map (\<lambda>k. fst (g (bstart datasize num_procs w + int k))) [0..<nat (bsize datasize num_procs w)],
          map (\<lambda>k. snd (g (bstart datasize num_procs w + int k))) [0..<nat (bsize datasize num_procs w)])"
proof -
  let ?s = "bstart datasize num_procs w"
  let ?n = "bsize datasize num_procs w"
  have r: "worker_range datasize num_procs w = Inr (?n, ?s, ?s + ?n)"
    by (rule worker_range_spec [OF d])
  have s0: "0 \<le> ?s" and e: "?s + ?n \<le> datasize" using bstart_bounds [OF d w] by simp_all
  have n0: "0 \<le> ?n" by (rule bsize_nonneg [OF d])
  have users: "\<forall>v. ?s \<le> v \<and> v < ?s + ?n \<longrightarrow> learn_user nc te part v = Inr (g v)"
    using g s0 e by simp
  have "learn_loop nc te part ?s (?s + ?n) ?s (gk_imalloc junk ?n, gk_imalloc junk ?n) =
      Inr (take (nat (?s - ?s)) (gk_imalloc junk ?n) @ map (\<lambda>k. fst (g (?s + int k))) [0..<nat (?s + ?n - ?s)],
           take (nat (?s - ?s)) (gk_imalloc junk ?n) @ map (\<lambda>k. snd (g (?s + int k))) [0..<nat (?s + ?n - ?s)])"
    using users n0 by (intro learn_loop_result) (simp_all add: length_gk_imalloc)
  then have "learn_loop nc te part ?s (?s + ?n) ?s (gk_imalloc junk ?n, gk_imalloc junk ?n) =
      Inr (map (\<lambda>k. fst (g (?s + int k))) [0..<nat ?n], map (\<lambda>k. snd (g (?s + int k))) [0..<nat ?n])"
    by simp
  then show ?thesis by (simp add: local_pass_def r)
qed

lemma sequential_round_result:
  assumes "0 \<le> nrows" "\<forall>v. 0 \<le> v \<and> v < nrows \<longrightarrow> learn_user nc te part v = Inr (g v)"
  shows "sequential_round nc te nrows part =
     Inr (map (\<lambda>k. fst (g (int k))) [0..<nat nrows], map (\<lambda>k. snd (g (int k))) [0..<nat nrows])"
  using sequential_loop_result [of 0 nrows nc te part g "[]" "[]"] assms
  by (simp add: sequential_round_def)

lemma lslim_learn_pu_all_result:
  assumes d: "0 \<le> nrows" "1 \<le> num_procs"
    and g: "\<forall>v. 0 \<le> v \<and> v < nrows \<longrightarrow> learn_user nc te part v = Inr (g v)"
  shows "lslim_learn_pu_all num_procs nc te nrows part junk =
     Inr (replicate (nat num_procs)
            (map (\<lambda>k. fst (g (int k))) [0..<nat nrows], map (\<lambda>k. snd (g (int k))) [0..<nat nrows]))"
proof -
  define loc where "loc w =
     (bsize nrows num_procs w,
      map (\<lambda>k. fst (g (bstart nrows num_procs w + int k))) [0..<nat (bsize nrows num_procs w)],
      map (\<lambda>k. snd (g (bstart nrows num_procs w + int k))) [0..<nat (bsize nrows num_procs w)])" for w
  let ?ranks = "map int [0..<nat num_procs]"
  let ?locals = "map loc ?ranks"
  have c: "collect (map (\<lambda>id_ctrl. local_pass num_procs nc te nrows part (junk id_ctrl) id_ctrl) ?ranks) =
      Inr ?locals"
  proof (rule collect_map_Inr)
    fix w assume "w \<in> set ?ranks"
    then have "0 \<le> w" "w < num_procs" by auto
    then show "local_pass num_procs nc te nrows part (junk w) w = Inr (loc w)"
      unfolding loc_def by (rule local_pass_result [OF d _ _ g])
  qed
  have last: "bstart nrows num_procs (int (nat num_procs)) = nrows"
    using bstart_last [OF d(2), of nrows] d(2) by simp
  have cp: "concat (map (\<lambda>l. fst (snd l)) ?locals) = map (\<lambda>k. fst (g (int k))) [0..<nat nrows]"
    using concat_blocks [OF d, of "nat num_procs" "\<lambda>v. fst (g v)"] last
    by (simp add: loc_def comp_def)
  have ci: "concat (map (\<lambda>l. snd (snd l)) ?locals) = map (\<lambda>k. snd (g (int k))) [0..<nat nrows]"
    using concat_blocks [OF d, of "nat num_procs" "\<lambda>v. snd (g v)"] last
    by (simp add: loc_def comp_def)
  have shape: "\<And>step pp pd. (step, pp, pd) \<in> set ?locals \<Longrightarrow> step = int (length pp) \<and> length pd = length pp"
    using bsize_nonneg [OF d] by (auto simp add: loc_def)
  have "synchronize num_procs nrows junk ?locals =
      Inr (replicate (nat num_procs)
             (concat (map (\<lambda>l. fst (snd l)) ?locals), concat (map (\<lambda>l. snd (snd l)) ?locals)))"
  proof (rule synchronize_concat [OF d(2) _ shape d(1)])
    show "length ?locals = nat num_procs" by simp
    show "nat nrows = length (concat (map (\<lambda>l. fst (snd l)) ?locals))" unfolding cp by simp
  qed
  then show ?thesis
    unfolding lslim_learn_pu_all_def c cp ci by simp
qed

lemma nth_concat_block:
  assumes "w < length xs" "j < length (xs ! w)"
  shows "concat xs ! (length (concat (take w xs)) + j) = xs ! w ! j"
proof -
  have "xs = take w xs @ xs ! w # drop (Suc w) xs"
    using assms(1) by (rule id_take_nth_drop)
  then have "concat xs = concat (take w xs) @ xs ! w @ concat (drop (Suc w) xs)"
    by (metis concat.simps(2) concat_append)
  then show ?thesis using assms(2) by (simp add: nth_append)
qed

lemma learn_user_valid:
  assumes "0 \<le> u" "u < int (length participation)"
    and "0 \<le> participation ! nat u" "participation ! nat u < num_clusters"
  shows "\<exists>r. learn_user num_clusters training_error participation u = Inr r \<and>
             lslim_learn_pu num_clusters training_error u (participation ! nat u) = Inr r"
  using lslim_learn_pu_in_range [OF assms(3,4), of training_error u] assms(1,2)
  by (auto simp add: learn_user_def array_read_def)


lemma scenario_sequential:
  "sequential_round 2 scenario_error 4 [0, 0, 1, 0] = Inr ([0, 1, 1, 0], [0, 0, 1, 1])"
  by code_simp


section \<open>Faults of the round\<close>

lemma learn_user_fault:
  "learn_user num_clusters training_error participation u = Inl e \<Longrightarrow> e = OutOfBounds"
proof -
  assume a: "learn_user num_clusters training_error participation u = Inl e"
  show ?thesis
  proof (cases "array_read participation u")
    case (Inl e')
    then show ?thesis using a by (auto simp add: learn_user_def array_read_def split: if_splits)
  next
    case (Inr p)
    then have l: "lslim_learn_pu num_clusters training_error u p = Inl e"
      using a by (simp add: learn_user_def)
    show ?thesis
    proof (cases "0 \<le> p \<and> p < num_clusters")
      case True
      then show ?thesis
        using lslim_learn_pu_in_range [of p num_clusters training_error u] l by auto
    next
      case False
      then show ?thesis using lslim_learn_pu_out_of_range [OF False, of training_error u] l by simp
    qed
  qed
qed

lemma array_write_fault: "array_write xs i v = Inl e \<Longrightarrow> e = OutOfBounds"
  by (simp add: array_write_def split: if_splits)

lemma learn_loop_fault_kind:
  "learn_loop nc te part startu endu u s = Inl e \<Longrightarrow> e = OutOfBounds"
proof (induction nc te part startu endu u s rule: learn_loop.induct)
  case (1 num_clusters training_error participation startu endu u partial_participation partial_indiff)
  note res = "1.prems"
  show ?case
  proof (cases "u < endu")
    case False
    then show ?thesis using res by (subst (asm) learn_loop.simps) simp
  next
    case lt: True
    show ?thesis
    proof (cases "learn_user num_clusters training_error participation u")
      case (Inl e')
      then have "e' = e" using res lt by (subst (asm) learn_loop.simps) simp
      then show ?thesis using learn_user_fault [OF Inl] by simp
    next
      case (Inr r)
      obtain a d where r: "r = (a, d)" by (cases r)
      show ?thesis
      proof (cases "array_write partial_participation (u - startu) a")
        case (Inl e')
        then have "e' = e" using res lt Inr r by (subst (asm) learn_loop.simps) simp
        then show ?thesis using array_write_fault [OF Inl] by simp
      next
        case wa: (Inr A1)
        show ?thesis
        proof (cases "array_write partial_indiff (u - startu) d")
          case (Inl e')
          then have "e' = e" using res lt Inr r wa by (subst (asm) learn_loop.simps) simp
          then show ?thesis using array_write_fault [OF Inl] by simp
        next
          case wb: (Inr B1)
          have "learn_loop num_clusters training_error participation startu endu (u + 1) (A1, B1) = Inl e"
            using res lt Inr r wa wb by (subst (asm) learn_loop.simps) simp
          then show ?thesis by (rule "1.IH" [OF lt Inr r [symmetric] wa wb])
        qed
      qed
    qed
  qed
qed

lemma learn_loop_fault:
  "u \<le> v \<Longrightarrow> v < endu \<Longrightarrow> learn_user nc te part v = Inl e \<Longrightarrow>
   learn_loop nc te part startu endu u s = Inl OutOfBounds"
proof (induction nc te part startu endu u s rule: learn_loop.induct)
  case (1 num_clusters training_error participation startu endu u partial_participation partial_indiff)
  have lt: "u < endu" using "1.prems" by simp
  show ?case
  proof (cases "learn_user num_clusters training_error participation u")
    case (Inl e')
    then show ?thesis
      using lt learn_user_fault [OF Inl] by (subst learn_loop.simps) simp
  next
    case (Inr r)
    obtain a d where r: "r = (a, d)" by (cases r)
    have "u \<noteq> v" using Inr "1.prems"(3) by auto
    then have v: "u + 1 \<le> v" using "1.prems"(1) by simp
    show ?thesis
    proof (cases "array_write partial_participation (u - startu) a")
      case (Inl e')
      then show ?thesis
        using lt Inr r array_write_fault [OF Inl] by (subst learn_loop.simps) simp
    next
      case wa: (Inr A1)
      show ?thesis
      proof (cases "array_write partial_indiff (u - startu) d")
        case (Inl e')
        then show ?thesis
          using lt Inr r wa array_write_fault [OF Inl] by (subst learn_loop.simps) simp
      next
        case wb: (Inr B1)
        have "learn_loop num_clusters training_error participation startu endu (u + 1) (A1, B1) =
            Inl OutOfBounds"
          using "1.IH" [OF lt Inr r [symmetric] wa wb v "1.prems"(2,3)] .
        then show ?thesis
          using lt Inr r wa wb by (subst learn_loop.simps) simp
      qed
    qed
  qed
qed

lemma sequential_loop_fault:
  "u \<le> v \<Longrightarrow> v < nrows \<Longrightarrow> learn_user nc te part v = Inl e \<Longrightarrow>
   sequential_loop nc te part nrows u s = Inl OutOfBounds"
proof (induction nc te part nrows u s rule: sequential_loop.induct)
  case (1 num_clusters training_error participation nrows u assignments indiffs)
  have lt: "u < nrows" using "1.prems" by simp
  show ?case
  proof (cases "learn_user num_clusters training_error participation u")
    case (Inl e')
    then show ?thesis
      using lt learn_user_fault [OF Inl] by (subst sequential_loop.simps) simp
  next
    case (Inr r)
    obtain a d where r: "r = (a, d)" by (cases r)
    have "u \<noteq> v" using Inr "1.prems"(3) by auto
    then have v: "u + 1 \<le> v" using "1.prems"(1) by simp
    have "sequential_loop num_clusters training_error participation nrows (u + 1)
        (assignments @ [a], indiffs @ [d]) = Inl OutOfBounds"
      using "1.IH" [OF lt Inr r [symmetric] v "1.prems"(2,3)] .
    then show ?thesis using lt Inr r by (subst sequential_loop.simps) simp
  qed
qed

lemma collect_fault:
  "x \<in> set xs \<Longrightarrow> x = Inl e \<Longrightarrow> (\<And>y e'. y \<in> set xs \<Longrightarrow> y = Inl e' \<Longrightarrow> e' = e) \<Longrightarrow>
   collect xs = Inl e"
proof (induction xs)
  case Nil
  then show ?case by simp
next
  case (Cons y ys)
  show ?case
  proof (cases y)
    case (Inl e')
    then have "e' = e" using Cons.prems(3) [of y e'] by simp
    then show ?thesis using Inl by simp
  next
    case (Inr a)
    then have mem: "x \<in> set ys" using Cons.prems(1,2) by auto
    have rest: "\<And>z e'. z \<in> set ys \<Longrightarrow> z = Inl e' \<Longrightarrow> e' = e"
    proof -
      fix z e' assume "z \<in> set ys" "z = Inl e'"
      then show "e' = e" using Cons.prems(3) [of z e'] by (simp del: One_nat_def)
    qed
    have "collect ys = Inl e"
      by (rule Cons.IH [OF mem Cons.prems(2) rest])
    then show ?thesis using Inr by simp
  qed
qed

lemma local_pass_fault_kind:
  assumes "0 \<le> datasize" "1 \<le> num_procs"
    and "local_pass num_procs nc te datasize part junk w = Inl e"
  shows "e = OutOfBounds"
proof -
  let ?s = "bstart datasize num_procs w"
  let ?n = "bsize datasize num_procs w"
  have r: "worker_range datasize num_procs w = Inr (?n, ?s, ?s + ?n)"
    by (rule worker_range_spec [OF assms(1,2)])
  have "learn_loop nc te part ?s (?s + ?n) ?s (gk_imalloc junk ?n, gk_imalloc junk ?n) = Inl e"
    using assms(3) by (simp add: local_pass_def r split: sum.splits)
  then show ?thesis by (rule learn_loop_fault_kind)
qed

lemma lslim_learn_pu_all_fault:
  assumes d: "0 \<le> nrows" "1 \<le> num_procs" and v: "0 \<le> v" "v < nrows"
    and bad: "learn_user nc te part v = Inl e"
  shows "lslim_learn_pu_all num_procs nc te nrows part junk = Inl OutOfBounds"
proof -
  let ?ranks = "map int [0..<nat num_procs]"
  let ?f = "\<lambda>id_ctrl. local_pass num_procs nc te nrows part (junk id_ctrl) id_ctrl"
  obtain w where w: "0 \<le> w" "w < num_procs" "bstart nrows num_procs w \<le> v"
      "v < bstart nrows num_procs w + bsize nrows num_procs w"
    using owner_exists_unique [OF d v] by blast
  have r: "worker_range nrows num_procs w =
      Inr (bsize nrows num_procs w, bstart nrows num_procs w,
           bstart nrows num_procs w + bsize nrows num_procs w)"
    by (rule worker_range_spec [OF d])
  have "learn_loop nc te part (bstart nrows num_procs w)
        (bstart nrows num_procs w + bsize nrows num_procs w) (bstart nrows num_procs w)
        (gk_imalloc (junk w) (bsize nrows num_procs w), gk_imalloc (junk w) (bsize nrows num_procs w)) =
      Inl OutOfBounds"
    using w(3,4) bad by (rule learn_loop_fault)
  then have fw: "?f w = Inl OutOfBounds" by (simp add: local_pass_def r)
  have "nat w < nat num_procs" using w by simp
  then have mem: "?f w \<in> set (map ?f ?ranks)" using w(1) by (auto simp add: image_iff intro!: bexI [of _ "nat w"])
  have kind: "\<And>y e'. y \<in> set (map ?f ?ranks) \<Longrightarrow> y = Inl e' \<Longrightarrow> e' = OutOfBounds"
  proof -
    fix y e' assume "y \<in> set (map ?f ?ranks)" "y = Inl e'"
    then obtain k where "?f k = Inl e'" by auto
    then show "e' = OutOfBounds" by (rule local_pass_fault_kind [OF d])
  qed
  have "collect (map ?f ?ranks) = Inl OutOfBounds"
    by (rule collect_fault [OF mem fw kind])
  then show ?thesis by (simp add: lslim_learn_pu_all_def)
qed

lemma sequential_round_fault:
  assumes "0 \<le> v" "v < nrows" "learn_user nc te part v = Inl e"
  shows "sequential_round nc te nrows part = Inl OutOfBounds"
  unfolding sequential_round_def using assms by (rule sequential_loop_fault)

lemma lslim_learn_pu_all_sequential:
  assumes d: "0 \<le> nrows" "1 \<le> num_procs"
  shows "lslim_learn_pu_all num_procs nc te nrows part junk =
     (case sequential_round nc te nrows part of
        Inl e \<Rightarrow> Inl e
      | Inr r \<Rightarrow> Inr (replicate (nat num_procs) r))"
proof (cases "\<exists>v e. 0 \<le> v \<and> v < nrows \<and> learn_user nc te part v = Inl e")
  case True
  then obtain v e where v: "0 \<le> v" "v < nrows" "learn_user nc te part v = Inl e" by blast
  show ?thesis
    using lslim_learn_pu_all_fault [OF d v] sequential_round_fault [OF v] by simp
next
  case False
  define g where "g v = projr (learn_user nc te part v)" for v
  have g: "\<forall>v. 0 \<le> v \<and> v < nrows \<longrightarrow> learn_user nc te part v = Inr (g v)"
  proof (intro allI impI)
    fix v assume v: "0 \<le> v \<and> v < nrows"
    then obtain r where "learn_user nc te part v = Inr r"
      using False by (cases "learn_user nc te part v") auto
    then show "learn_user nc te part v = Inr (g v)" by (simp add: g_def)
  qed
  show ?thesis
    using lslim_learn_pu_all_result [OF d g] sequential_round_result [OF d(1) g] by simp
qed

lemma scenario_sequential_fault:
  "sequential_round 2 scenario_error 4 [0, 0, 2, 0] = Inl OutOfBounds"
  by code_simp


section \<open>Claims about the round\<close>

text \<open>
  Claim C4. For any per-worker slices (each with its size, the sizes summing to the
  user count) the root computes as offset of worker \<open>w\<close> the sum of the sizes of the
  workers before \<open>w\<close>; the assembled assignment and indifference vectors have the
  length of the user count, are the slices in rank order, carry at offset of \<open>w\<close> plus
  \<open>j\<close> the \<open>j\<close>-th value of worker \<open>w\<close>, and after the broadcast every worker holds the
  same pair of vectors.
\<close>

theorem synchronize_round_trip:
  assumes procs: "1 \<le> num_procs" "length locals = nat num_procs"
    and shape: "\<forall>(step, pp, pd) \<in> set locals. step = int (length pp) \<and> length pd = length pp"
    and total: "nrows = sum_list (map fst locals)"
  shows "compute_displays num_procs (map fst locals) (gk_ismalloc num_procs 0) =
           Inr (map (\<lambda>w. sum_list (take w (map fst locals))) [0..<nat num_procs]) \<and>
         (\<exists>tp ti.
            synchronize num_procs nrows junk locals = Inr (replicate (nat num_procs) (tp, ti)) \<and>
            length tp = nat nrows \<and> length ti = nat nrows \<and>
            tp = concat (map (\<lambda>l. fst (snd l)) locals) \<and>
            ti = concat (map (\<lambda>l. snd (snd l)) locals) \<and>
            (\<forall>w j. w < length locals \<and> j < nat (fst (locals ! w)) \<longrightarrow>
               tp ! (nat (sum_list (take w (map fst locals))) + j) = fst (snd (locals ! w)) ! j \<and>
               ti ! (nat (sum_list (take w (map fst locals))) + j) = snd (snd (locals ! w)) ! j))"
proof
  show "compute_displays num_procs (map fst locals) (gk_ismalloc num_procs 0) =
      Inr (map (\<lambda>w. sum_list (take w (map fst locals))) [0..<nat num_procs])"
    using procs by (simp add: compute_displays_result)
next
  let ?pps = "map (\<lambda>l. fst (snd l)) locals"
  let ?pds = "map (\<lambda>l. snd (snd l)) locals"
  have sh: "\<And>step pp pd. (step, pp, pd) \<in> set locals \<Longrightarrow> step = int (length pp) \<and> length pd = length pp"
    using shape by blast
  have sz_p: "map fst locals = map (\<lambda>m. int (length m)) ?pps"
    using sh by (auto simp add: comp_def)
  have lens: "map length ?pds = map length ?pps"
    using sh by (auto simp add: comp_def)
  have len_d: "length (concat ?pds) = length (concat ?pps)"
    using lens by (simp only: length_concat)
  have n: "nrows = int (length (concat ?pps))"
    unfolding total sz_p by (rule sum_list_lengths)
  then have n': "0 \<le> nrows" "nat nrows = length (concat ?pps)" by simp_all
  have sync: "synchronize num_procs nrows junk locals = Inr (replicate (nat num_procs) (concat ?pps, concat ?pds))"
    by (rule synchronize_concat [OF procs sh n'])
  have off: "\<And>w. nat (sum_list (take w (map fst locals))) = length (concat (take w ?pps))"
  proof -
    fix w
    have "sum_list (take w (map fst locals)) = int (length (concat (take w ?pps)))"
      unfolding sz_p by (simp only: take_map sum_list_lengths)
    then show "nat (sum_list (take w (map fst locals))) = length (concat (take w ?pps))" by simp
  qed
  have pt: "\<forall>w j. w < length locals \<and> j < nat (fst (locals ! w)) \<longrightarrow>
      concat ?pps ! (nat (sum_list (take w (map fst locals))) + j) = fst (snd (locals ! w)) ! j \<and>
      concat ?pds ! (nat (sum_list (take w (map fst locals))) + j) = snd (snd (locals ! w)) ! j"
  proof (intro allI impI)
    fix w j assume wj: "w < length locals \<and> j < nat (fst (locals ! w))"
    then have mem: "locals ! w \<in> set locals" by simp
    obtain step pp pd where l: "locals ! w = (step, pp, pd)" by (cases "locals ! w")
    have s: "step = int (length pp)" "length pd = length pp" using sh mem l by auto
    have jp: "j < length (?pps ! w)" "j < length (?pds ! w)" using wj l s by simp_all
    have offd: "length (concat (take w ?pds)) = length (concat (take w ?pps))"
    proof -
      have "map length (take w ?pds) = map length (take w ?pps)"
        using lens by (simp only: take_map [symmetric])
      then show ?thesis by (simp only: length_concat)
    qed
    have "concat ?pps ! (length (concat (take w ?pps)) + j) = ?pps ! w ! j"
      using wj jp by (intro nth_concat_block) simp_all
    moreover have "concat ?pds ! (length (concat (take w ?pds)) + j) = ?pds ! w ! j"
      using wj jp by (intro nth_concat_block) simp_all
    ultimately show "concat ?pps ! (nat (sum_list (take w (map fst locals))) + j) = fst (snd (locals ! w)) ! j \<and>
      concat ?pds ! (nat (sum_list (take w (map fst locals))) + j) = snd (snd (locals ! w)) ! j"
      using wj by (simp add: off offd)
  qed
  show "\<exists>tp ti.
      synchronize num_procs nrows junk locals = Inr (replicate (nat num_procs) (tp, ti)) \<and>
      length tp = nat nrows \<and> length ti = nat nrows \<and>
      tp = concat ?pps \<and> ti = concat ?pds \<and>
      (\<forall>w j. w < length locals \<and> j < nat (fst (locals ! w)) \<longrightarrow>
         tp ! (nat (sum_list (take w (map fst locals))) + j) = fst (snd (locals ! w)) ! j \<and>
         ti ! (nat (sum_list (take w (map fst locals))) + j) = snd (snd (locals ! w)) ! j)"
    using sync n' len_d pt by (intro exI [of _ "concat ?pps"] exI [of _ "concat ?pds"]) simp
qed

theorem synchronize_round_trip_witness:
  "compute_displays 3 [3, 2, 2] (gk_ismalloc 3 0) = Inr [0, 3, 5] \<and>
   synchronize 3 7 (\<lambda>r k. 77) [(3, [1, 2, 3], [4, 5, 6]), (2, [7, 8], [9, 10]), (2, [11, 12], [13, 14])] =
     Inr [([1, 2, 3, 7, 8, 11, 12], [4, 5, 6, 9, 10, 13, 14]),
          ([1, 2, 3, 7, 8, 11, 12], [4, 5, 6, 9, 10, 13, 14]),
          ([1, 2, 3, 7, 8, 11, 12], [4, 5, 6, 9, 10, 13, 14])]"
proof -
  let ?locals = "[(3, [1, 2, 3], [4, 5, 6]), (2, [7, 8], [9, 10]), (2, [11, 12], [13, 14])] :: (int \<times> int list \<times> int list) list"
  have u: "[0..<nat 3] = [0, 1, 2]" by (simp add: numeral_3_eq_3 upt_rec)
  have r: "replicate (nat 3) x = [x, x, x]" for x :: "int list \<times> int list"
    by (simp add: numeral_3_eq_3)
  obtain tp ti where "synchronize 3 7 (\<lambda>r k. 77) ?locals = Inr (replicate (nat 3) (tp, ti))"
      "tp = concat (map (\<lambda>l. fst (snd l)) ?locals)" "ti = concat (map (\<lambda>l. snd (snd l)) ?locals)"
    and "compute_displays 3 (map fst ?locals) (gk_ismalloc 3 0) =
           Inr (map (\<lambda>w. sum_list (take w (map fst ?locals))) [0..<nat 3])"
    using synchronize_round_trip [of 3 ?locals 7 "\<lambda>r k. 77"] by auto
  then show ?thesis unfolding u r by simp
qed

text \<open>
  Claim C5. For every number of workers \<open>num_procs \<ge> 1\<close>, and whatever the fresh
  buffers held, every worker of \<open>lslim_learn_pu_all\<close> returns the vectors of the
  sequential run, and the round faults exactly when the sequential run faults; so the
  result is the same for every number of workers. For a participation vector with an
  assignment in \<open>[0, num_clusters)\<close> for every user the sequential run returns
  vectors with one entry per user, the entry of user \<open>u\<close> being the result of
  \<open>lslim_learn_pu\<close> on \<open>u\<close>.
\<close>

theorem worker_count_independent:
  assumes n: "0 \<le> nrows"
  shows "(\<forall>num_procs junk. 1 \<le> num_procs \<longrightarrow>
            lslim_learn_pu_all num_procs num_clusters training_error nrows participation junk =
              (case sequential_round num_clusters training_error nrows participation of
                 Inl e \<Rightarrow> Inl e
               | Inr r \<Rightarrow> Inr (replicate (nat num_procs) r))) \<and>
         (nrows \<le> int (length participation) \<and>
          (\<forall>u. 0 \<le> u \<and> u < nrows \<longrightarrow>
             0 \<le> participation ! nat u \<and> participation ! nat u < num_clusters) \<longrightarrow>
            (\<exists>assignments indiffs.
               sequential_round num_clusters training_error nrows participation = Inr (assignments, indiffs) \<and>
               length assignments = nat nrows \<and> length indiffs = nat nrows \<and>
               (\<forall>u. 0 \<le> u \<and> u < nrows \<longrightarrow>
                  lslim_learn_pu num_clusters training_error u (participation ! nat u) =
                    Inr (assignments ! nat u, indiffs ! nat u))))"
proof (intro conjI allI impI)
  fix num_procs :: int and junk :: "int \<Rightarrow> nat \<Rightarrow> int"
  assume "1 \<le> num_procs"
  then show "lslim_learn_pu_all num_procs num_clusters training_error nrows participation junk =
      (case sequential_round num_clusters training_error nrows participation of
         Inl e \<Rightarrow> Inl e
       | Inr r \<Rightarrow> Inr (replicate (nat num_procs) r))"
    by (rule lslim_learn_pu_all_sequential [OF n])
next
  assume a: "nrows \<le> int (length participation) \<and>
      (\<forall>u. 0 \<le> u \<and> u < nrows \<longrightarrow> 0 \<le> participation ! nat u \<and> participation ! nat u < num_clusters)"
  define g where "g v = projr (learn_user num_clusters training_error participation v)" for v
  have ok: "\<And>v. 0 \<le> v \<Longrightarrow> v < nrows \<Longrightarrow>
      learn_user num_clusters training_error participation v = Inr (g v) \<and>
      lslim_learn_pu num_clusters training_error v (participation ! nat v) = Inr (g v)"
  proof -
    fix v assume v: "0 \<le> v" "v < nrows"
    then obtain r where "learn_user num_clusters training_error participation v = Inr r"
        "lslim_learn_pu num_clusters training_error v (participation ! nat v) = Inr r"
      using learn_user_valid [of v participation num_clusters training_error] a by force
    then show "learn_user num_clusters training_error participation v = Inr (g v) \<and>
        lslim_learn_pu num_clusters training_error v (participation ! nat v) = Inr (g v)"
      by (simp add: g_def)
  qed
  then have g: "\<forall>v. 0 \<le> v \<and> v < nrows \<longrightarrow>
      learn_user num_clusters training_error participation v = Inr (g v)"
    by simp
  let ?as = "map (\<lambda>k. fst (g (int k))) [0..<nat nrows]"
  let ?ds = "map (\<lambda>k. snd (g (int k))) [0..<nat nrows]"
  have seq: "sequential_round num_clusters training_error nrows participation = Inr (?as, ?ds)"
    by (rule sequential_round_result [OF n g])
  have pt: "\<forall>u. 0 \<le> u \<and> u < nrows \<longrightarrow>
      lslim_learn_pu num_clusters training_error u (participation ! nat u) = Inr (?as ! nat u, ?ds ! nat u)"
    using ok by simp
  show "\<exists>assignments indiffs.
      sequential_round num_clusters training_error nrows participation = Inr (assignments, indiffs) \<and>
      length assignments = nat nrows \<and> length indiffs = nat nrows \<and>
      (\<forall>u. 0 \<le> u \<and> u < nrows \<longrightarrow>
         lslim_learn_pu num_clusters training_error u (participation ! nat u) =
           Inr (assignments ! nat u, indiffs ! nat u))"
    using seq pt by (intro exI [of _ ?as] exI [of _ ?ds]) simp
qed


theorem worker_count_independent_witness:
  "lslim_learn_pu_all 2 2 scenario_error 4 [0, 0, 1, 0] (\<lambda>r k. 77) =
     Inr [([0, 1, 1, 0], [0, 0, 1, 1]), ([0, 1, 1, 0], [0, 0, 1, 1])] \<and>
   lslim_learn_pu_all 3 2 scenario_error 4 [0, 0, 1, 0] (\<lambda>r k. 5) =
     Inr [([0, 1, 1, 0], [0, 0, 1, 1]), ([0, 1, 1, 0], [0, 0, 1, 1]), ([0, 1, 1, 0], [0, 0, 1, 1])] \<and>
   lslim_learn_pu_all 3 2 scenario_error 4 [0, 0, 2, 0] (\<lambda>r k. 5) = Inl OutOfBounds"
proof -
  have p: "\<forall>num_procs junk. 1 \<le> num_procs \<longrightarrow>
      lslim_learn_pu_all num_procs 2 scenario_error 4 [0, 0, 1, 0] junk =
        Inr (replicate (nat num_procs) ([0, 1, 1, 0], [0, 0, 1, 1]))"
    using worker_count_independent [of 4 2 scenario_error "[0, 0, 1, 0]"] scenario_sequential
    by simp
  have q: "\<forall>num_procs junk. 1 \<le> num_procs \<longrightarrow>
      lslim_learn_pu_all num_procs 2 scenario_error 4 [0, 0, 2, 0] junk = Inl OutOfBounds"
    using worker_count_independent [of 4 2 scenario_error "[0, 0, 2, 0]"] scenario_sequential_fault
    by simp
  have "replicate (nat 2) x = [x, x]" "replicate (nat 3) x = [x, x, x]" for x :: "int list \<times> int list"
    by (simp_all add: numeral_2_eq_2 numeral_3_eq_3)
  then show ?thesis
    using p [rule_format, of 2 "\<lambda>r k. 77"] p [rule_format, of 3 "\<lambda>r k. 5"]
      q [rule_format, of 3 "\<lambda>r k. 5"]
    by simp
qed

section \<open>The round on the memory\<close>

lemma mem_read_block: "blocks m a = Some xs \<Longrightarrow> mem_read m a i = array_read xs i"
  by (simp add: mem_read_def)

lemma mem_write_block:
  "blocks m a = Some xs \<Longrightarrow>
   mem_write m a i v =
     (case array_write xs i v of Inl e \<Rightarrow> Inl e | Inr xs' \<Rightarrow> Inr (m\<lparr>blocks := (blocks m)(a \<mapsto> xs')\<rparr>))"
  by (simp add: mem_write_def)

lemma blocks_two_same:
  "blocks m pp = Some A \<Longrightarrow> blocks m pd = Some B \<Longrightarrow>
   m\<lparr>blocks := (blocks m)(pp \<mapsto> A, pd \<mapsto> B)\<rparr> = m"
proof -
  assume a: "blocks m pp = Some A" "blocks m pd = Some B"
  have "(blocks m)(pp \<mapsto> A, pd \<mapsto> B) = blocks m"
    using a by (auto simp add: fun_eq_iff)
  then show ?thesis by simp
qed

lemma learn_loop_mem_sim:
  "blocks m part = Some P \<Longrightarrow> blocks m pp = Some A \<Longrightarrow> blocks m pd = Some B \<Longrightarrow>
   part \<noteq> pp \<Longrightarrow> part \<noteq> pd \<Longrightarrow> pp \<noteq> pd \<Longrightarrow>
   learn_loop_mem nc te part startu endu pp pd u m =
     (case learn_loop nc te P startu endu u (A, B) of
        Inl e \<Rightarrow> Inl e
      | Inr (A', B') \<Rightarrow> Inr (m\<lparr>blocks := (blocks m)(pp \<mapsto> A', pd \<mapsto> B')\<rparr>))"
proof (induction nc te part startu endu pp pd u m arbitrary: A B rule: learn_loop_mem.induct)
  case (1 num_clusters training_error participation startu endu partial_participation partial_indiff u m)
  note blk = "1.prems"(1,2,3) and ne = "1.prems"(4,5,6)
  show ?case
  proof (cases "u < endu")
    case False
    then show ?thesis
      using blk by (subst learn_loop_mem.simps, subst learn_loop.simps) (simp add: blocks_two_same)
  next
    case True
    have rd: "mem_read m participation u = array_read P u" using blk(1) by (rule mem_read_block)
    show ?thesis
    proof (cases "array_read P u")
      case (Inl e)
      then show ?thesis
        using True rd by (subst learn_loop_mem.simps, subst learn_loop.simps) (simp add: learn_user_def)
    next
      case (Inr p)
      show ?thesis
      proof (cases "lslim_learn_pu num_clusters training_error u p")
        case (Inl e)
        then show ?thesis
          using True rd Inr by (subst learn_loop_mem.simps, subst learn_loop.simps) (simp add: learn_user_def)
      next
        case res: (Inr r)
        obtain a d where r: "r = (a, d)" by (cases r)
        have lu: "learn_user num_clusters training_error P u = Inr (a, d)"
          using Inr res r by (simp add: learn_user_def)
        show ?thesis
        proof (cases "array_write A (u - startu) a")
          case (Inl e)
          then show ?thesis
            using True rd Inr res r lu blk(2)
            by (subst learn_loop_mem.simps, subst learn_loop.simps) (simp add: mem_write_block)
        next
          case wa: (Inr A1)
          let ?m1 = "m\<lparr>blocks := (blocks m)(partial_participation \<mapsto> A1)\<rparr>"
          have w1: "mem_write m partial_participation (u - startu) a = Inr ?m1"
            using blk(2) wa by (simp add: mem_write_block)
          have b1: "blocks ?m1 partial_indiff = Some B" using blk(3) ne(3) by simp
          show ?thesis
          proof (cases "array_write B (u - startu) d")
            case (Inl e)
            then show ?thesis
              using True rd Inr res r lu wa w1 b1
              by (subst learn_loop_mem.simps, subst learn_loop.simps) (simp add: mem_write_block)
          next
            case wb: (Inr B1)
            let ?m2 = "?m1\<lparr>blocks := (blocks ?m1)(partial_indiff \<mapsto> B1)\<rparr>"
            have w2: "mem_write ?m1 partial_indiff (u - startu) d = Inr ?m2"
              using b1 wb by (simp add: mem_write_block)
            have ih: "learn_loop_mem num_clusters training_error participation startu endu
                  partial_participation partial_indiff (u + 1) ?m2 =
                (case learn_loop num_clusters training_error P startu endu (u + 1) (A1, B1) of
                   Inl e \<Rightarrow> Inl e
                 | Inr (A', B') \<Rightarrow>
                     Inr (?m2\<lparr>blocks := (blocks ?m2)(partial_participation \<mapsto> A', partial_indiff \<mapsto> B')\<rparr>))"
              using rd Inr res r w1 w2 blk ne
              by (intro "1.IH" [OF True _ _ _ w1 w2]) simp_all
            have upd: "\<And>A' B'. ?m2\<lparr>blocks := (blocks ?m2)(partial_participation \<mapsto> A', partial_indiff \<mapsto> B')\<rparr> =
                m\<lparr>blocks := (blocks m)(partial_participation \<mapsto> A', partial_indiff \<mapsto> B')\<rparr>"
              by (simp add: fun_upd_twist)
            have l: "learn_loop_mem num_clusters training_error participation startu endu
                  partial_participation partial_indiff u m =
                learn_loop_mem num_clusters training_error participation startu endu
                  partial_participation partial_indiff (u + 1) ?m2"
              using True rd Inr res r w1 w2 by (subst learn_loop_mem.simps) simp
            have p: "learn_loop num_clusters training_error P startu endu u (A, B) =
                learn_loop num_clusters training_error P startu endu (u + 1) (A1, B1)"
              using True lu wa wb by (subst learn_loop.simps) simp
            show ?thesis unfolding l p ih upd ..
          qed
        qed
      qed
    qed
  qed
qed

lemma local_pass_block:
  assumes "0 \<le> datasize" "1 \<le> num_procs" "0 \<le> w" "w < num_procs"
    and "\<forall>v. 0 \<le> v \<and> v < datasize \<longrightarrow> learn_user nc te part v = Inr (g v)"
  shows "local_pass num_procs nc te datasize part junk w = Inr (block_values g datasize num_procs w)"
  unfolding block_values_def by (rule local_pass_result [OF assms])

lemma synchronize_blocks:
  assumes d: "0 \<le> nrows" "1 \<le> num_procs"
  shows "synchronize num_procs nrows junk (map (block_values g nrows num_procs) (map int [0..<nat num_procs])) =
     Inr (replicate (nat num_procs)
            (map (\<lambda>k. fst (g (int k))) [0..<nat nrows], map (\<lambda>k. snd (g (int k))) [0..<nat nrows]))"
proof -
  let ?locals = "map (block_values g nrows num_procs) (map int [0..<nat num_procs])"
  have last: "bstart nrows num_procs (int (nat num_procs)) = nrows"
    using bstart_last [OF d(2), of nrows] d(2) by simp
  have cp: "concat (map (\<lambda>l. fst (snd l)) ?locals) = map (\<lambda>k. fst (g (int k))) [0..<nat nrows]"
    using concat_blocks [OF d, of "nat num_procs" "\<lambda>v. fst (g v)"] last
    by (simp add: block_values_def comp_def)
  have ci: "concat (map (\<lambda>l. snd (snd l)) ?locals) = map (\<lambda>k. snd (g (int k))) [0..<nat nrows]"
    using concat_blocks [OF d, of "nat num_procs" "\<lambda>v. snd (g v)"] last
    by (simp add: block_values_def comp_def)
  have shape: "\<And>step pp pd. (step, pp, pd) \<in> set ?locals \<Longrightarrow> step = int (length pp) \<and> length pd = length pp"
    using bsize_nonneg [OF d] by (auto simp add: block_values_def)
  have "synchronize num_procs nrows junk ?locals =
      Inr (replicate (nat num_procs)
             (concat (map (\<lambda>l. fst (snd l)) ?locals), concat (map (\<lambda>l. snd (snd l)) ?locals)))"
  proof (rule synchronize_concat [OF d(2) _ shape d(1)])
    show "length ?locals = nat num_procs" by simp
    show "nat nrows = length (concat (map (\<lambda>l. fst (snd l)) ?locals))" unfolding cp by simp
  qed
  then show ?thesis unfolding cp ci .
qed

lemma mem_wf_allocated: "mem_wf m \<Longrightarrow> blocks m a = Some xs \<Longrightarrow> a < next_free m"
  unfolding mem_wf_def by (metis not_le option.distinct(1))

lemma local_pass_mem_sim:
  assumes wf: "mem_wf m" and part: "blocks m part = Some P"
  shows "local_pass_mem np sz nc te ds part junk w m =
     (case local_pass np nc te ds P junk w of
        Inl e \<Rightarrow> Inl e
      | Inr (step, A, B) \<Rightarrow>
          Inr (step, next_free m, Suc (next_free m),
               (widen_ncols sz nc m)\<lparr>blocks := (blocks m)(next_free m \<mapsto> A, Suc (next_free m) \<mapsto> B),
                                      next_free := Suc (Suc (next_free m))\<rparr>))"
proof (cases "worker_range ds np w")
  case (Inl e)
  then show ?thesis by (simp add: local_pass_mem_def local_pass_def)
next
  case (Inr r)
  obtain step startu endu where r: "r = (step, startu, endu)" by (cases r)
  let ?n = "next_free m"
  let ?J = "gk_imalloc junk step"
  let ?m0 = "widen_ncols sz nc m"
  let ?m2 = "?m0\<lparr>blocks := (blocks m)(?n \<mapsto> ?J, Suc ?n \<mapsto> ?J), next_free := Suc (Suc ?n)\<rparr>"
  have lt: "part < ?n" by (rule mem_wf_allocated [OF wf part])
  have m0: "blocks ?m0 = blocks m" "next_free ?m0 = ?n" by (simp_all add: widen_ncols_def)
  have alloc: "(case mem_alloc ?J ?m0 of (pp, m1) \<Rightarrow> case mem_alloc ?J m1 of (pd, m2) \<Rightarrow> (pp, pd, m2)) =
      (?n, Suc ?n, ?m2)"
    by (simp add: mem_alloc_def m0)
  have sim: "learn_loop_mem nc te part startu endu ?n (Suc ?n) startu ?m2 =
     (case learn_loop nc te P startu endu startu (?J, ?J) of
        Inl e \<Rightarrow> Inl e
      | Inr (A', B') \<Rightarrow> Inr (?m2\<lparr>blocks := (blocks ?m2)(?n \<mapsto> A', Suc ?n \<mapsto> B')\<rparr>))"
    using part lt by (intro learn_loop_mem_sim) simp_all
  have upd: "\<And>A' B'. ?m2\<lparr>blocks := (blocks ?m2)(?n \<mapsto> A', Suc ?n \<mapsto> B')\<rparr> =
      ?m0\<lparr>blocks := (blocks m)(?n \<mapsto> A', Suc ?n \<mapsto> B'), next_free := Suc (Suc ?n)\<rparr>"
    by (simp add: fun_upd_twist)
  show ?thesis
    using Inr r sim
    by (simp add: local_pass_mem_def local_pass_def Let_def mem_alloc_def m0 upd split: sum.splits prod.splits)
qed

lemma mem_wf_fresh: "mem_wf m \<Longrightarrow> next_free m \<le> a \<Longrightarrow> blocks m a = None"
  by (simp add: mem_wf_def)

lemma sync_rank_mem_result:
  fixes w :: int and m0 :: memory
  assumes wf: "mem_wf m0"
  defines "n \<equiv> next_free m0"
  defines "tp \<equiv> (if w = 0 then Suc (Suc (Suc (Suc n))) else Suc (Suc n))"
  shows "\<exists>m'. sync_rank_mem np nrows junk w sv dv (tv, iv)
             (step, n, Suc n, M\<lparr>blocks := (blocks m0)(n \<mapsto> A, Suc n \<mapsto> B), next_free := Suc (Suc n)\<rparr>) =
           ((tp, Suc tp), m') \<and>
         blocks m' = (blocks m0)(tp \<mapsto> tv, Suc tp \<mapsto> iv) \<and>
         model_ncols m' = model_ncols M"
proof -
  have fresh: "\<And>k. blocks m0 (n + k) = None"
    using wf unfolding n_def by (intro mem_wf_fresh) simp_all
  have f0: "blocks m0 n = None" using fresh [of 0] by simp
  have f1: "blocks m0 (Suc n) = None" using fresh [of 1] by simp
  have f2: "blocks m0 (Suc (Suc n)) = None" using fresh [of "Suc (Suc 0)"] by simp
  have f3: "blocks m0 (Suc (Suc (Suc n))) = None" using fresh [of "Suc (Suc (Suc 0))"] by simp
  show ?thesis
  proof (cases "w = 0")
    case True
    then show ?thesis
      using f0 f1 f2 f3
      by (auto simp add: sync_rank_mem_def Let_def mem_alloc_def mem_receive_def mem_free_def tp_def
            fun_eq_iff)
  next
    case False
    then show ?thesis
      using f0 f1
      by (auto simp add: sync_rank_mem_def Let_def mem_alloc_def mem_receive_def mem_free_def tp_def
            fun_eq_iff)
  qed
qed

lemma send_buffers_local:
  "send_buffers (local_memory g nrows num_procs size_ctrl num_clusters w m) =
     Inr (block_values g nrows num_procs w)"
  by (cases "block_values g nrows num_procs w")
     (simp add: send_buffers_def local_memory_def mem_buffer_def)

lemma lslim_learn_pu_all_mem_result:
  assumes d: "0 \<le> nrows" "1 \<le> num_procs"
    and g: "\<forall>v. 0 \<le> v \<and> v < nrows \<longrightarrow> learn_user num_clusters training_error participation v = Inr (g v)"
    and mem: "\<forall>r. 0 \<le> r \<and> r < num_procs \<longrightarrow> mem_wf (mem r) \<and> blocks (mem r) (part r) = Some participation"
  shows "\<exists>displays_v.
     lslim_learn_pu_all_mem num_procs size_ctrl num_clusters training_error nrows part junk mem =
       Inr (map (\<lambda>k. sync_rank_mem num_procs nrows (junk (int k)) (int k)
                        (map fst (map (block_values g nrows num_procs) (map int [0..<nat num_procs])))
                        displays_v
                        (map (\<lambda>k. fst (g (int k))) [0..<nat nrows], map (\<lambda>k. snd (g (int k))) [0..<nat nrows])
                        (local_memory g nrows num_procs size_ctrl num_clusters (int k) (mem (int k))))
                [0..<nat num_procs])"
proof -
  let ?ranks = "map int [0..<nat num_procs]"
  let ?lm = "\<lambda>w. local_memory g nrows num_procs size_ctrl num_clusters w (mem w)"
  let ?locals = "map (block_values g nrows num_procs) ?ranks"
  let ?tot = "(map (\<lambda>k. fst (g (int k))) [0..<nat nrows], map (\<lambda>k. snd (g (int k))) [0..<nat nrows])"
  have c1: "collect (map (\<lambda>id_ctrl. local_pass_mem num_procs size_ctrl num_clusters training_error nrows
                (part id_ctrl) (junk id_ctrl) id_ctrl (mem id_ctrl)) ?ranks) = Inr (map ?lm ?ranks)"
  proof (rule collect_map_Inr)
    fix w assume "w \<in> set ?ranks"
    then have w: "0 \<le> w" "w < num_procs" by auto
    have wf: "mem_wf (mem w)" and blk: "blocks (mem w) (part w) = Some participation"
      using mem w by simp_all
    have "local_pass num_procs num_clusters training_error nrows participation (junk w) w =
        Inr (block_values g nrows num_procs w)"
      by (rule local_pass_block [OF d w g])
    then show "local_pass_mem num_procs size_ctrl num_clusters training_error nrows (part w) (junk w) w (mem w) =
        Inr (?lm w)"
      unfolding local_pass_mem_sim [OF wf blk]
      by (cases "block_values g nrows num_procs w") (simp add: local_memory_def)
  qed
  have c2: "collect (map send_buffers (map ?lm ?ranks)) = Inr ?locals"
  proof -
    have "collect (map (\<lambda>w. send_buffers (?lm w)) ?ranks) = Inr (map (block_values g nrows num_procs) ?ranks)"
      by (rule collect_map_Inr) (rule send_buffers_local)
    then show ?thesis by (simp add: comp_def)
  qed
  obtain displays_v where c3: "compute_displays num_procs (map fst ?locals) (gk_ismalloc num_procs 0) = Inr displays_v"
    using compute_displays_result [OF d(2), of "map fst ?locals"] by simp
  have c4: "synchronize num_procs nrows junk ?locals = Inr (replicate (nat num_procs) ?tot)"
    by (rule synchronize_blocks [OF d])
  have "lslim_learn_pu_all_mem num_procs size_ctrl num_clusters training_error nrows part junk mem =
      Inr (map (\<lambda>k. sync_rank_mem num_procs nrows (junk (int k)) (int k) (map fst ?locals) displays_v
                        (replicate (nat num_procs) ?tot ! k) (map ?lm ?ranks ! k))
               [0..<length (map ?lm ?ranks)])"
    unfolding lslim_learn_pu_all_mem_def by (simp only: c1 c2 c3 c4 sum.case)
  also have "\<dots> = Inr (map (\<lambda>k. sync_rank_mem num_procs nrows (junk (int k)) (int k) (map fst ?locals) displays_v
                        ?tot (?lm (int k)))
               [0..<nat num_procs])"
    by simp
  finally show ?thesis by blast
qed

lemma lslim_learn_pu_all_mem_valid:
  assumes procs: "1 \<le> num_procs"
    and n: "0 \<le> nrows" "nrows \<le> int (length participation)"
    and valid: "\<forall>u. 0 \<le> u \<and> u < nrows \<longrightarrow>
        0 \<le> participation ! nat u \<and> participation ! nat u < num_clusters"
    and mem: "\<forall>r. 0 \<le> r \<and> r < num_procs \<longrightarrow>
        mem_wf (mem r) \<and> blocks (mem r) (part r) = Some participation"
  shows "\<exists>outs.
     lslim_learn_pu_all_mem num_procs size_ctrl num_clusters training_error nrows part junk mem = Inr outs \<and>
     length outs = nat num_procs \<and>
     (\<forall>r. 0 \<le> r \<and> r < num_procs \<longrightarrow>
        (\<exists>total_participation total_indiff m' assignments indiffs.
           outs ! nat r = ((total_participation, total_indiff), m') \<and>
           blocks m' (part r) = Some participation \<and>
           blocks (mem r) total_participation = None \<and> blocks (mem r) total_indiff = None \<and>
           total_participation \<noteq> part r \<and> total_indiff \<noteq> part r \<and>
           total_participation \<noteq> total_indiff \<and>
           blocks m' total_participation = Some assignments \<and>
           blocks m' total_indiff = Some indiffs \<and>
           sequential_round num_clusters training_error nrows participation = Inr (assignments, indiffs) \<and>
           (\<forall>a. a \<noteq> total_participation \<and> a \<noteq> total_indiff \<longrightarrow> blocks m' a = blocks (mem r) a)))"
proof -
  define g where "g v = projr (learn_user num_clusters training_error participation v)" for v
  have g: "\<forall>v. 0 \<le> v \<and> v < nrows \<longrightarrow>
      learn_user num_clusters training_error participation v = Inr (g v)"
  proof (intro allI impI)
    fix v assume v: "0 \<le> v \<and> v < nrows"
    then obtain r where "learn_user num_clusters training_error participation v = Inr r"
      using learn_user_valid [of v participation num_clusters training_error] n valid by force
    then show "learn_user num_clusters training_error participation v = Inr (g v)"
      by (simp add: g_def)
  qed
  let ?as = "map (\<lambda>k. fst (g (int k))) [0..<nat nrows]"
  let ?ds = "map (\<lambda>k. snd (g (int k))) [0..<nat nrows]"
  have seq: "sequential_round num_clusters training_error nrows participation = Inr (?as, ?ds)"
    by (rule sequential_round_result [OF n(1) g])
  obtain displays_v where res:
    "lslim_learn_pu_all_mem num_procs size_ctrl num_clusters training_error nrows part junk mem =
       Inr (map (\<lambda>k. sync_rank_mem num_procs nrows (junk (int k)) (int k)
                        (map fst (map (block_values g nrows num_procs) (map int [0..<nat num_procs])))
                        displays_v (?as, ?ds)
                        (local_memory g nrows num_procs size_ctrl num_clusters (int k) (mem (int k))))
                [0..<nat num_procs])"
    using lslim_learn_pu_all_mem_result [OF n(1) procs g mem] by blast
  let ?outs = "map (\<lambda>k. sync_rank_mem num_procs nrows (junk (int k)) (int k)
                        (map fst (map (block_values g nrows num_procs) (map int [0..<nat num_procs])))
                        displays_v (?as, ?ds)
                        (local_memory g nrows num_procs size_ctrl num_clusters (int k) (mem (int k))))
                [0..<nat num_procs]"
  have each: "\<forall>r. 0 \<le> r \<and> r < num_procs \<longrightarrow>
        (\<exists>total_participation total_indiff m' assignments indiffs.
           ?outs ! nat r = ((total_participation, total_indiff), m') \<and>
           blocks m' (part r) = Some participation \<and>
           blocks (mem r) total_participation = None \<and> blocks (mem r) total_indiff = None \<and>
           total_participation \<noteq> part r \<and> total_indiff \<noteq> part r \<and>
           total_participation \<noteq> total_indiff \<and>
           blocks m' total_participation = Some assignments \<and>
           blocks m' total_indiff = Some indiffs \<and>
           sequential_round num_clusters training_error nrows participation = Inr (assignments, indiffs) \<and>
           (\<forall>a. a \<noteq> total_participation \<and> a \<noteq> total_indiff \<longrightarrow> blocks m' a = blocks (mem r) a))"
  proof (intro allI impI)
    fix r assume r: "0 \<le> r \<and> r < num_procs"
    then have wf: "mem_wf (mem r)" and blk: "blocks (mem r) (part r) = Some participation"
      using mem by simp_all
    let ?n = "next_free (mem r)"
    let ?tp = "if r = 0 then Suc (Suc (Suc (Suc ?n))) else Suc (Suc ?n)"
    obtain step A B where bv: "block_values g nrows num_procs r = (step, A, B)"
      by (cases "block_values g nrows num_procs r")
    have lm: "local_memory g nrows num_procs size_ctrl num_clusters r (mem r) =
        (step, ?n, Suc ?n,
         (widen_ncols size_ctrl num_clusters (mem r))\<lparr>blocks := (blocks (mem r))(?n \<mapsto> A, Suc ?n \<mapsto> B),
             next_free := Suc (Suc ?n)\<rparr>)"
      by (simp add: local_memory_def bv)
    have nth: "?outs ! nat r = sync_rank_mem num_procs nrows (junk r) r
          (map fst (map (block_values g nrows num_procs) (map int [0..<nat num_procs])))
          displays_v (?as, ?ds) (local_memory g nrows num_procs size_ctrl num_clusters r (mem r))"
      using r by simp
    obtain m' where m': "?outs ! nat r = ((?tp, Suc ?tp), m')"
        "blocks m' = (blocks (mem r))(?tp \<mapsto> ?as, Suc ?tp \<mapsto> ?ds)"
      unfolding nth lm
      using sync_rank_mem_result [OF wf, where w = r and np = num_procs and nrows = nrows
          and junk = "junk r" and dv = displays_v and tv = ?as and iv = ?ds and step = step
          and M = "widen_ncols size_ctrl num_clusters (mem r)" and A = A and B = B]
      by blast
    have lt: "part r < ?n" by (rule mem_wf_allocated [OF wf blk])
    have f1: "blocks (mem r) ?tp = None" using wf by (intro mem_wf_fresh) simp_all
    have f2: "blocks (mem r) (Suc ?tp) = None" using wf by (intro mem_wf_fresh) simp_all
    have "?n < ?tp" by simp
    then have ne: "?tp \<noteq> part r" "Suc ?tp \<noteq> part r" "?tp \<noteq> Suc ?tp" using lt by linarith+
    have b1: "blocks m' (part r) = Some participation" using m'(2) blk ne by simp
    have b2: "blocks m' ?tp = Some ?as" using m'(2) by simp
    have b3: "blocks m' (Suc ?tp) = Some ?ds" using m'(2) by simp
    have b4: "\<forall>a. a \<noteq> ?tp \<and> a \<noteq> Suc ?tp \<longrightarrow> blocks m' a = blocks (mem r) a"
      using m'(2) by simp
    show "\<exists>total_participation total_indiff m' assignments indiffs.
           ?outs ! nat r = ((total_participation, total_indiff), m') \<and>
           blocks m' (part r) = Some participation \<and>
           blocks (mem r) total_participation = None \<and> blocks (mem r) total_indiff = None \<and>
           total_participation \<noteq> part r \<and> total_indiff \<noteq> part r \<and>
           total_participation \<noteq> total_indiff \<and>
           blocks m' total_participation = Some assignments \<and>
           blocks m' total_indiff = Some indiffs \<and>
           sequential_round num_clusters training_error nrows participation = Inr (assignments, indiffs) \<and>
           (\<forall>a. a \<noteq> total_participation \<and> a \<noteq> total_indiff \<longrightarrow> blocks m' a = blocks (mem r) a)"
      using m'(1) b1 f1 f2 ne b2 b3 seq b4
      by (intro exI [of _ ?tp] exI [of _ "Suc ?tp"] exI [of _ m'] exI [of _ ?as] exI [of _ ?ds]) blast
  qed
  have len: "length ?outs = nat num_procs" by simp
  show ?thesis using res len each by blast
qed

lemma collect_Inr_nth:
  "collect xs = Inr ys \<Longrightarrow> length ys = length xs \<and> (\<forall>k<length xs. xs ! k = Inr (ys ! k))"
proof (induction xs arbitrary: ys)
  case Nil
  then show ?case by simp
next
  case (Cons x xs)
  from Cons.prems obtain v vs where x: "x = Inr v" and vs: "collect xs = Inr vs" and ys: "ys = v # vs"
    by (auto split: sum.splits)
  have ih: "length vs = length xs \<and> (\<forall>k<length xs. xs ! k = Inr (vs ! k))"
    by (rule Cons.IH [OF vs])
  show ?case
  proof (intro conjI allI impI)
    show "length ys = length (x # xs)" using ih ys by simp
  next
    fix k assume "k < length (x # xs)"
    then show "(x # xs) ! k = Inr (ys ! k)" using ih x ys by (cases k) simp_all
  qed
qed

lemma lslim_learn_pu_all_mem_frame:
  assumes mem: "\<forall>r. 0 \<le> r \<and> r < num_procs \<longrightarrow>
        mem_wf (mem r) \<and> blocks (mem r) (part r) = Some participation"
    and res: "lslim_learn_pu_all_mem num_procs size_ctrl num_clusters training_error nrows part junk mem = Inr outs"
  shows "length outs = nat num_procs"
    and "\<And>r. 0 \<le> r \<Longrightarrow> r < num_procs \<Longrightarrow>
      \<exists>tp tv iv m'. next_free (mem r) < tp \<and>
        outs ! nat r = ((tp, Suc tp), m') \<and>
        blocks m' = (blocks (mem r))(tp \<mapsto> tv, Suc tp \<mapsto> iv) \<and>
        model_ncols m' = model_ncols (widen_ncols size_ctrl num_clusters (mem r))"
proof -
  let ?ranks = "map int [0..<nat num_procs]"
  let ?f = "\<lambda>id_ctrl. local_pass_mem num_procs size_ctrl num_clusters training_error nrows
      (part id_ctrl) (junk id_ctrl) id_ctrl (mem id_ctrl)"
  note d = lslim_learn_pu_all_mem_def
  obtain ls where c: "collect (map ?f ?ranks) = Inr ls"
    using res by (cases "collect (map ?f ?ranks)") (simp_all add: d)
  obtain locals where c2: "collect (map send_buffers ls) = Inr locals"
    using res c by (cases "collect (map send_buffers ls)") (simp_all add: d)
  obtain displays_v where c3:
    "compute_displays num_procs (map fst locals) (gk_ismalloc num_procs 0) = Inr displays_v"
    using res c c2
    by (cases "compute_displays num_procs (map fst locals) (gk_ismalloc num_procs 0)") (simp_all add: d)
  obtain totals where c4: "synchronize num_procs nrows junk locals = Inr totals"
    using res c c2 c3 by (cases "synchronize num_procs nrows junk locals") (simp_all add: d)
  have outs: "outs = map (\<lambda>k. sync_rank_mem num_procs nrows (junk (int k)) (int k) (map fst locals)
        displays_v (totals ! k) (ls ! k)) [0..<length ls]"
    using res c c2 c3 c4 by (simp add: d)
  have len: "length ls = nat num_procs"
    and nth: "\<forall>k<nat num_procs. ?f (int k) = Inr (ls ! k)"
    using collect_Inr_nth [OF c] by simp_all
  show "length outs = nat num_procs" using outs len by simp
  fix r assume r: "0 \<le> r" "r < num_procs"
  then have wf: "mem_wf (mem r)" and blk: "blocks (mem r) (part r) = Some participation"
    using mem by simp_all
  let ?n = "next_free (mem r)"
  let ?tp = "if r = 0 then Suc (Suc (Suc (Suc ?n))) else Suc (Suc ?n)"
  have k: "nat r < nat num_procs" using r by simp
  have fr: "?f r = Inr (ls ! nat r)" using nth [rule_format, OF k] r by simp
  obtain step A B where l: "ls ! nat r =
      (step, ?n, Suc ?n,
       (widen_ncols size_ctrl num_clusters (mem r))\<lparr>blocks := (blocks (mem r))(?n \<mapsto> A, Suc ?n \<mapsto> B),
           next_free := Suc (Suc ?n)\<rparr>)"
  proof (cases "local_pass num_procs num_clusters training_error nrows participation (junk r) r")
    case (Inl e)
    then show ?thesis using fr unfolding local_pass_mem_sim [OF wf blk] by simp
  next
    case (Inr x)
    obtain step A B where x: "x = (step, A, B)" by (cases x)
    have "Inr (ls ! nat r) =
        (Inr (step, ?n, Suc ?n,
           (widen_ncols size_ctrl num_clusters (mem r))\<lparr>blocks := (blocks (mem r))(?n \<mapsto> A, Suc ?n \<mapsto> B),
               next_free := Suc (Suc ?n)\<rparr>) :: fault + (int \<times> nat \<times> nat \<times> memory))"
      using fr Inr x unfolding local_pass_mem_sim [OF wf blk] by simp
    then show ?thesis using that by simp
  qed
  have o: "outs ! nat r = sync_rank_mem num_procs nrows (junk r) r (map fst locals) displays_v
      (fst (totals ! nat r), snd (totals ! nat r)) (ls ! nat r)"
    using outs len k r by simp
  obtain m' where m': "outs ! nat r = ((?tp, Suc ?tp), m')"
      "blocks m' = (blocks (mem r))(?tp \<mapsto> fst (totals ! nat r), Suc ?tp \<mapsto> snd (totals ! nat r))"
      "model_ncols m' = model_ncols (widen_ncols size_ctrl num_clusters (mem r))"
    unfolding o l
    using sync_rank_mem_result [OF wf, where w = r and np = num_procs and nrows = nrows
        and junk = "junk r" and dv = displays_v and sv = "map fst locals"
        and tv = "fst (totals ! nat r)" and iv = "snd (totals ! nat r)" and step = step
        and M = "widen_ncols size_ctrl num_clusters (mem r)" and A = A and B = B]
    by blast
  have "?n < ?tp" by simp
  then show "\<exists>tp tv iv m'. next_free (mem r) < tp \<and>
        outs ! nat r = ((tp, Suc tp), m') \<and>
        blocks m' = (blocks (mem r))(tp \<mapsto> tv, Suc tp \<mapsto> iv) \<and>
        model_ncols m' = model_ncols (widen_ncols size_ctrl num_clusters (mem r))"
    using m' by blast
qed

text \<open>
  Claim C9. On well-formed memories that hold the participation vector, every run of
  the round that returns leaves the input array as it was on every worker; the two
  returned arrays are at addresses that were not allocated before the call, so they
  differ from the input array and from each other, and both are allocated afterwards;
  no other array of the memory has changed; and \<^verbatim>\<open>model->ncols\<close> is the only other
  thing written. For a valid participation vector the round does return, and the two
  returned arrays hold the vectors of the sequential run.
\<close>

theorem participation_unchanged:
  assumes mem: "\<forall>r. 0 \<le> r \<and> r < num_procs \<longrightarrow>
        mem_wf (mem r) \<and> blocks (mem r) (part r) = Some participation"
  shows "(\<forall>outs.
            lslim_learn_pu_all_mem num_procs size_ctrl num_clusters training_error nrows part junk mem =
              Inr outs \<longrightarrow>
            length outs = nat num_procs \<and>
            (\<forall>r. 0 \<le> r \<and> r < num_procs \<longrightarrow>
               (\<exists>total_participation total_indiff m'.
                  outs ! nat r = ((total_participation, total_indiff), m') \<and>
                  blocks m' (part r) = Some participation \<and>
                  blocks (mem r) total_participation = None \<and> blocks (mem r) total_indiff = None \<and>
                  total_participation \<noteq> part r \<and> total_indiff \<noteq> part r \<and>
                  total_participation \<noteq> total_indiff \<and>
                  blocks m' total_participation \<noteq> None \<and> blocks m' total_indiff \<noteq> None \<and>
                  (\<forall>a. a \<noteq> total_participation \<and> a \<noteq> total_indiff \<longrightarrow>
                     blocks m' a = blocks (mem r) a) \<and>
                  model_ncols m' = model_ncols (widen_ncols size_ctrl num_clusters (mem r))))) \<and>
         (1 \<le> num_procs \<and> 0 \<le> nrows \<and> nrows \<le> int (length participation) \<and>
          (\<forall>u. 0 \<le> u \<and> u < nrows \<longrightarrow>
             0 \<le> participation ! nat u \<and> participation ! nat u < num_clusters) \<longrightarrow>
            (\<exists>outs.
               lslim_learn_pu_all_mem num_procs size_ctrl num_clusters training_error nrows part junk mem =
                 Inr outs \<and>
               (\<forall>r. 0 \<le> r \<and> r < num_procs \<longrightarrow>
                  (\<exists>total_participation total_indiff m' assignments indiffs.
                     outs ! nat r = ((total_participation, total_indiff), m') \<and>
                     blocks m' total_participation = Some assignments \<and>
                     blocks m' total_indiff = Some indiffs \<and>
                     sequential_round num_clusters training_error nrows participation =
                       Inr (assignments, indiffs)))))"
proof (intro conjI allI impI)
  fix outs
  assume res: "lslim_learn_pu_all_mem num_procs size_ctrl num_clusters training_error nrows part junk mem =
      Inr outs"
  show "length outs = nat num_procs"
    by (rule lslim_learn_pu_all_mem_frame(1) [OF mem res])
  fix r assume r: "0 \<le> r \<and> r < num_procs"
  then have wf: "mem_wf (mem r)" and blk: "blocks (mem r) (part r) = Some participation"
    using mem by simp_all
  obtain tp tv iv m' where t: "next_free (mem r) < tp" "outs ! nat r = ((tp, Suc tp), m')"
      "blocks m' = (blocks (mem r))(tp \<mapsto> tv, Suc tp \<mapsto> iv)"
      "model_ncols m' = model_ncols (widen_ncols size_ctrl num_clusters (mem r))"
    using lslim_learn_pu_all_mem_frame(2) [OF mem res, of r] r by blast
  have lt: "part r < next_free (mem r)" by (rule mem_wf_allocated [OF wf blk])
  have f1: "blocks (mem r) tp = None" using wf t(1) by (intro mem_wf_fresh) simp_all
  have f2: "blocks (mem r) (Suc tp) = None" using wf t(1) by (intro mem_wf_fresh) simp_all
  have ne: "tp \<noteq> part r" "Suc tp \<noteq> part r" "tp \<noteq> Suc tp" using lt t(1) by linarith+
  have b1: "blocks m' (part r) = Some participation" using t(3) blk ne by simp
  have b2: "blocks m' tp \<noteq> None" "blocks m' (Suc tp) \<noteq> None" using t(3) by simp_all
  have b4: "\<forall>a. a \<noteq> tp \<and> a \<noteq> Suc tp \<longrightarrow> blocks m' a = blocks (mem r) a"
    using t(3) by simp
  show "\<exists>total_participation total_indiff m'.
      outs ! nat r = ((total_participation, total_indiff), m') \<and>
      blocks m' (part r) = Some participation \<and>
      blocks (mem r) total_participation = None \<and> blocks (mem r) total_indiff = None \<and>
      total_participation \<noteq> part r \<and> total_indiff \<noteq> part r \<and>
      total_participation \<noteq> total_indiff \<and>
      blocks m' total_participation \<noteq> None \<and> blocks m' total_indiff \<noteq> None \<and>
      (\<forall>a. a \<noteq> total_participation \<and> a \<noteq> total_indiff \<longrightarrow> blocks m' a = blocks (mem r) a) \<and>
      model_ncols m' = model_ncols (widen_ncols size_ctrl num_clusters (mem r))"
    using t(2,4) b1 f1 f2 ne b2 b4
    by (intro exI [of _ tp] exI [of _ "Suc tp"] exI [of _ m']) blast
next
  assume v: "1 \<le> num_procs \<and> 0 \<le> nrows \<and> nrows \<le> int (length participation) \<and>
      (\<forall>u. 0 \<le> u \<and> u < nrows \<longrightarrow>
         0 \<le> participation ! nat u \<and> participation ! nat u < num_clusters)"
  obtain outs where o: "lslim_learn_pu_all_mem num_procs size_ctrl num_clusters training_error nrows part junk mem =
      Inr outs"
    and each: "\<forall>r. 0 \<le> r \<and> r < num_procs \<longrightarrow>
        (\<exists>total_participation total_indiff m' assignments indiffs.
           outs ! nat r = ((total_participation, total_indiff), m') \<and>
           blocks m' (part r) = Some participation \<and>
           blocks (mem r) total_participation = None \<and> blocks (mem r) total_indiff = None \<and>
           total_participation \<noteq> part r \<and> total_indiff \<noteq> part r \<and>
           total_participation \<noteq> total_indiff \<and>
           blocks m' total_participation = Some assignments \<and>
           blocks m' total_indiff = Some indiffs \<and>
           sequential_round num_clusters training_error nrows participation = Inr (assignments, indiffs) \<and>
           (\<forall>a. a \<noteq> total_participation \<and> a \<noteq> total_indiff \<longrightarrow> blocks m' a = blocks (mem r) a))"
    using lslim_learn_pu_all_mem_valid [of num_procs nrows participation num_clusters mem part
        size_ctrl training_error junk] v mem
    by blast
  show "\<exists>outs.
      lslim_learn_pu_all_mem num_procs size_ctrl num_clusters training_error nrows part junk mem = Inr outs \<and>
      (\<forall>r. 0 \<le> r \<and> r < num_procs \<longrightarrow>
         (\<exists>total_participation total_indiff m' assignments indiffs.
            outs ! nat r = ((total_participation, total_indiff), m') \<and>
            blocks m' total_participation = Some assignments \<and>
            blocks m' total_indiff = Some indiffs \<and>
            sequential_round num_clusters training_error nrows participation =
              Inr (assignments, indiffs)))"
  proof (intro exI [of _ outs] conjI allI impI)
    show "lslim_learn_pu_all_mem num_procs size_ctrl num_clusters training_error nrows part junk mem = Inr outs"
      by (rule o)
  next
    fix r assume "0 \<le> r \<and> r < num_procs"
    then show "\<exists>total_participation total_indiff m' assignments indiffs.
        outs ! nat r = ((total_participation, total_indiff), m') \<and>
        blocks m' total_participation = Some assignments \<and>
        blocks m' total_indiff = Some indiffs \<and>
        sequential_round num_clusters training_error nrows participation = Inr (assignments, indiffs)"
      using each by blast
  qed
qed

lemma int_mul_wraps: "int_mul 65536 65536 = 0"
  by (simp add: int_mul_def int_wrap_def)

lemma int_mul_small: "int_mul 7 2 = 14"
  by (simp add: int_mul_def int_wrap_def)

theorem participation_unchanged_witness:
  "(\<exists>outs total_participation total_indiff m'.
     lslim_learn_pu_all_mem 2 7 2 scenario_error 4 (\<lambda>r. 3) (\<lambda>r k. 77) (\<lambda>r. scenario_memory) = Inr outs \<and>
     length outs = 2 \<and>
     outs ! 0 = ((total_participation, total_indiff), m') \<and>
     blocks m' 3 = Some [0, 0, 1, 0] \<and>
     total_participation \<noteq> 3 \<and> total_indiff \<noteq> 3 \<and>
     blocks scenario_memory total_participation = None \<and>
     blocks scenario_memory total_indiff = None \<and>
     blocks m' total_participation = Some [0, 1, 1, 0] \<and>
     blocks m' total_indiff = Some [0, 0, 1, 1] \<and>
     model_ncols m' = 14) \<and>
   (\<exists>outs total_participation total_indiff m'.
     lslim_learn_pu_all_mem 2 65536 65536 scenario_error 4 (\<lambda>r. 3) (\<lambda>r k. 77) (\<lambda>r. scenario_memory) =
       Inr outs \<and>
     outs ! 0 = ((total_participation, total_indiff), m') \<and>
     blocks m' 3 = Some [0, 0, 1, 0] \<and>
     model_ncols m' = 10)"
proof -
  have v: "0 \<le> [0, 0, 1, 0 :: int] ! nat u \<and> [0, 0, 1, 0 :: int] ! nat u < 2"
    if "0 \<le> u \<and> u < 4" for u :: int
  proof -
    from that have "u = 0 \<or> u = 1 \<or> u = 2 \<or> u = 3" by arith
    then show ?thesis by auto
  qed
  have m: "\<forall>r :: int. 0 \<le> r \<and> r < 2 \<longrightarrow>
      mem_wf scenario_memory \<and> blocks scenario_memory ((\<lambda>r. 3) r) = Some [0, 0, 1, 0]"
    by (simp add: mem_wf_def scenario_memory_def)
  have first: "\<exists>outs total_participation total_indiff m' assignments indiffs.
      lslim_learn_pu_all_mem 2 size_ctrl num_clusters scenario_error 4 (\<lambda>r. 3) (\<lambda>r k. 77)
        (\<lambda>r. scenario_memory) = Inr outs \<and>
      length outs = 2 \<and>
      outs ! 0 = ((total_participation, total_indiff), m') \<and>
      blocks m' 3 = Some [0, 0, 1, 0] \<and>
      total_participation \<noteq> 3 \<and> total_indiff \<noteq> 3 \<and>
      blocks scenario_memory total_participation = None \<and>
      blocks scenario_memory total_indiff = None \<and>
      blocks m' total_participation = Some assignments \<and>
      blocks m' total_indiff = Some indiffs \<and>
      sequential_round num_clusters scenario_error 4 [0, 0, 1, 0] = Inr (assignments, indiffs) \<and>
      model_ncols m' = model_ncols (widen_ncols size_ctrl num_clusters scenario_memory)"
    if nc: "2 \<le> num_clusters" for size_ctrl num_clusters :: int
  proof -
    note inst = participation_unchanged [of 2 "\<lambda>r. scenario_memory" "\<lambda>r. 3" "[0, 0, 1, 0]"
        size_ctrl num_clusters scenario_error 4 "\<lambda>r k. 77", OF m]
    have valid: "\<forall>u. 0 \<le> u \<and> u < 4 \<longrightarrow>
        0 \<le> [0, 0, 1, 0 :: int] ! nat u \<and> [0, 0, 1, 0 :: int] ! nat u < num_clusters"
      using v nc by force
    obtain outs where o: "lslim_learn_pu_all_mem 2 size_ctrl num_clusters scenario_error 4 (\<lambda>r. 3)
          (\<lambda>r k. 77) (\<lambda>r. scenario_memory) = Inr outs"
      and seq: "\<forall>r. 0 \<le> r \<and> r < 2 \<longrightarrow>
        (\<exists>total_participation total_indiff m' assignments indiffs.
           outs ! nat r = ((total_participation, total_indiff), m') \<and>
           blocks m' total_participation = Some assignments \<and>
           blocks m' total_indiff = Some indiffs \<and>
           sequential_round num_clusters scenario_error 4 [0, 0, 1, 0] = Inr (assignments, indiffs))"
      using inst [THEN conjunct2] valid by auto
    have frame: "length outs = nat 2 \<and>
        (\<forall>r. 0 \<le> r \<and> r < 2 \<longrightarrow>
           (\<exists>total_participation total_indiff m'.
              outs ! nat r = ((total_participation, total_indiff), m') \<and>
              blocks m' 3 = Some [0, 0, 1, 0] \<and>
              blocks scenario_memory total_participation = None \<and>
              blocks scenario_memory total_indiff = None \<and>
              total_participation \<noteq> 3 \<and> total_indiff \<noteq> 3 \<and>
              total_participation \<noteq> total_indiff \<and>
              blocks m' total_participation \<noteq> None \<and> blocks m' total_indiff \<noteq> None \<and>
              (\<forall>a. a \<noteq> total_participation \<and> a \<noteq> total_indiff \<longrightarrow>
                 blocks m' a = blocks scenario_memory a) \<and>
              model_ncols m' = model_ncols (widen_ncols size_ctrl num_clusters scenario_memory)))"
      using inst [THEN conjunct1, rule_format, OF o] by simp
    obtain tp ti m' where f0: "outs ! nat 0 = ((tp, ti), m')" "blocks m' 3 = Some [0, 0, 1, 0]"
        "blocks scenario_memory tp = None" "blocks scenario_memory ti = None" "tp \<noteq> 3" "ti \<noteq> 3"
        "model_ncols m' = model_ncols (widen_ncols size_ctrl num_clusters scenario_memory)"
      using frame [THEN conjunct2, rule_format, of 0] by auto
    obtain tp' ti' m'' assignments indiffs where s0: "outs ! nat 0 = ((tp', ti'), m'')"
        "blocks m'' tp' = Some assignments" "blocks m'' ti' = Some indiffs"
        "sequential_round num_clusters scenario_error 4 [0, 0, 1, 0] = Inr (assignments, indiffs)"
      using seq [rule_format, of 0] by auto
    have "tp' = tp" "ti' = ti" "m'' = m'" using f0(1) s0(1) by simp_all
    then show ?thesis using o frame f0 s0 by auto
  qed
  have n14: "model_ncols (widen_ncols 7 2 scenario_memory) = 14"
    by (simp add: widen_ncols_def int_mul_small scenario_memory_def)
  have n10: "model_ncols (widen_ncols 65536 65536 scenario_memory) = 10"
    by (simp add: widen_ncols_def int_mul_wraps scenario_memory_def)
  have a: "\<exists>outs total_participation total_indiff m'.
     lslim_learn_pu_all_mem 2 7 2 scenario_error 4 (\<lambda>r. 3) (\<lambda>r k. 77) (\<lambda>r. scenario_memory) = Inr outs \<and>
     length outs = 2 \<and>
     outs ! 0 = ((total_participation, total_indiff), m') \<and>
     blocks m' 3 = Some [0, 0, 1, 0] \<and>
     total_participation \<noteq> 3 \<and> total_indiff \<noteq> 3 \<and>
     blocks scenario_memory total_participation = None \<and>
     blocks scenario_memory total_indiff = None \<and>
     blocks m' total_participation = Some [0, 1, 1, 0] \<and>
     blocks m' total_indiff = Some [0, 0, 1, 1] \<and>
     model_ncols m' = 14"
    using first [of 2 7] scenario_sequential n14 by auto
  have b: "\<exists>outs total_participation total_indiff m'.
     lslim_learn_pu_all_mem 2 65536 65536 scenario_error 4 (\<lambda>r. 3) (\<lambda>r k. 77) (\<lambda>r. scenario_memory) =
       Inr outs \<and>
     outs ! 0 = ((total_participation, total_indiff), m') \<and>
     blocks m' 3 = Some [0, 0, 1, 0] \<and>
     model_ncols m' = 10"
    using first [of 65536 65536] n10 by auto
  show ?thesis using a b by blast
qed

end
